theory Spec2Isabelle
  imports Main
begin

section \<open>Data model of the engine (tetrisLogic.ts)\<close>

datatype TetrominoType = I_piece | J_piece | L_piece | O_piece | S_piece | T_piece | Z_piece

text \<open>A cell is a piece tag or \<open>null\<close>; \<open>None\<close> stands for \<open>null\<close>.\<close>

type_synonym Cell = "TetrominoType option"

type_synonym Board = "Cell list list"

text \<open>
  A shape matrix is a \<open>number[][]\<close>. The engine only ever tests an entry for
  truthiness, so an entry is filled iff it is not \<open>0\<close>.
\<close>

type_synonym Matrix = "int list list"

record ActivePiece =
  ptype :: TetrominoType
  matrix :: Matrix
  px :: int
  py :: int

text \<open>
  The only exception the engine can raise is the \<open>TypeError\<close> of reading a
  property of \<open>undefined\<close> (a board with missing rows, an empty shape matrix).
  An operation that raises is its error; the fields it had changed before are not
  kept in the model.
\<close>

datatype error = TypeError

type_synonym 'a result = "error + 'a"

fun bindR :: "'a result \<Rightarrow> ('a \<Rightarrow> 'b result) \<Rightarrow> 'b result" where
  "bindR (Inl e) f = Inl e"
| "bindR (Inr v) f = f v"

definition BOARD_WIDTH :: int where
  "BOARD_WIDTH = 10"

definition BOARD_HEIGHT :: int where
  "BOARD_HEIGHT = 20"

section \<open>Collision test\<close>

text \<open>
  The inner loop of \<open>canPlace\<close> over the columns of one shape row. \<open>Inr True\<close>
  means the row was scanned without a \<open>return false\<close>. The read
  \<open>this.board[boardY][boardX]\<close> raises when the board has no row \<open>boardY\<close>; a
  row that is too short yields \<open>undefined\<close>, which is falsy like \<open>null\<close>.
\<close>

fun canPlaceCols :: "Board \<Rightarrow> int list \<Rightarrow> int \<Rightarrow> int \<Rightarrow> int \<Rightarrow> bool result" where
  "canPlaceCols b [] x boardY col = Inr True"
| "canPlaceCols b (v # vs) x boardY col =
     (if v = 0 then canPlaceCols b vs x boardY (col + 1)
      else let boardX = x + col in
        if boardX < 0 \<or> boardX \<ge> BOARD_WIDTH then Inr False
        else if boardY \<ge> BOARD_HEIGHT then Inr False
        else if boardY < 0 then canPlaceCols b vs x boardY (col + 1)
        else if nat boardY \<ge> length b then Inl TypeError
        else if nat boardX < length (b ! nat boardY) \<and> b ! nat boardY ! nat boardX \<noteq> None
          then Inr False
        else canPlaceCols b vs x boardY (col + 1))"

fun canPlaceRows :: "Board \<Rightarrow> Matrix \<Rightarrow> int \<Rightarrow> int \<Rightarrow> int \<Rightarrow> bool result" where
  "canPlaceRows b [] x y row = Inr True"
| "canPlaceRows b (r # rs) x y row =
     (case canPlaceCols b r x (y + row) 0 of
        Inl e \<Rightarrow> Inl e
      | Inr False \<Rightarrow> Inr False
      | Inr True \<Rightarrow> canPlaceRows b rs x y (row + 1))"

definition canPlace :: "Board \<Rightarrow> Matrix \<Rightarrow> int \<Rightarrow> int \<Rightarrow> bool result" where
  "canPlace b m x y = canPlaceRows b m x y 0"

section \<open>Constant tables\<close>

definition TETROMINO_ORDER :: "TetrominoType list" where
  "TETROMINO_ORDER = [I_piece, J_piece, L_piece, O_piece, S_piece, T_piece, Z_piece]"

fun TETROMINO_SHAPES :: "TetrominoType \<Rightarrow> Matrix" where
  "TETROMINO_SHAPES I_piece = [[1, 1, 1, 1]]"
| "TETROMINO_SHAPES J_piece = [[1, 0, 0], [1, 1, 1]]"
| "TETROMINO_SHAPES L_piece = [[0, 0, 1], [1, 1, 1]]"
| "TETROMINO_SHAPES O_piece = [[1, 1], [1, 1]]"
| "TETROMINO_SHAPES S_piece = [[0, 1, 1], [1, 1, 0]]"
| "TETROMINO_SHAPES T_piece = [[0, 1, 0], [1, 1, 1]]"
| "TETROMINO_SHAPES Z_piece = [[1, 1, 0], [0, 1, 1]]"

definition SCORE_TABLE :: "int list" where
  "SCORE_TABLE = [0, 40, 100, 300, 1200]"

datatype InputAction = MoveLeft | MoveRight | Rotate | SoftDrop | HardDrop

section \<open>Engine state\<close>

text \<open>
  The private fields of \<open>TetrisEngine\<close>. \<open>Math.random\<close> is ambient state of the
  program: it is modelled by the sequence \<open>rnd\<close> of its draws and the number
  \<open>rndPos\<close> of draws consumed so far. A draw \<open>d\<close> taken for
  \<open>Math.floor(Math.random() * (i + 1))\<close> stands for the index \<open>d mod (i + 1)\<close>, so
  every index in \<open>0..i\<close> can be drawn and no other.
\<close>

record TetrisEngine =
  board :: Board
  queue :: "TetrominoType list"
  currentPiece :: "ActivePiece option"
  running :: bool
  score :: int
  linesCleared :: int
  gameOver :: bool
  rnd :: "nat \<Rightarrow> nat"
  rndPos :: nat

record GameSnapshot =
  sBoard :: Board
  sCurrentPiece :: "ActivePiece option"
  sQueue :: "TetrominoType list"
  sScore :: int
  sLinesCleared :: int
  isGameOver :: bool

text \<open>\<open>nextPiece\<close> is \<open>this.queue[0]\<close>: \<open>None\<close> stands for \<open>undefined\<close>.\<close>

record RenderState = GameSnapshot +
  width :: int
  height :: int
  level :: int
  nextPiece :: "TetrominoType option"
  ghostY :: "int option"
  dropInterval :: int

definition createEmptyBoard :: Board where
  "createEmptyBoard = replicate (nat BOARD_HEIGHT) (replicate (nat BOARD_WIDTH) None)"

text \<open>The constructor: field initialisers, then the empty board.\<close>

definition newEngine :: "(nat \<Rightarrow> nat) \<Rightarrow> nat \<Rightarrow> TetrisEngine" where
  "newEngine r pos =
     \<lparr>board = createEmptyBoard, queue = [], currentPiece = None, running = False,
      score = 0, linesCleared = 0, gameOver = False, rnd = r, rndPos = pos\<rparr>"

definition getMatrixForType :: "TetrominoType \<Rightarrow> Matrix" where
  "getMatrixForType k = map (\<lambda>row. row) (TETROMINO_SHAPES k)"

section \<open>Queue and bag shuffle\<close>

text \<open>
  \<open>shuffle\<close>: the loop \<open>for (i = items.length - 1; i > 0; i -= 1)\<close>, swapping
  \<open>items[i]\<close> and \<open>items[j]\<close>. Both indices are inside the array.
\<close>

fun shuffleLoop :: "(nat \<Rightarrow> nat) \<Rightarrow> nat \<Rightarrow> TetrominoType list \<Rightarrow> nat \<Rightarrow> TetrominoType list \<times> nat" where
  "shuffleLoop r 0 items pos = (items, pos)"
| "shuffleLoop r (Suc k) items pos =
     (let i = Suc k; j = r pos mod (i + 1)
      in shuffleLoop r k (items[i := items ! j, j := items ! i]) (Suc pos))"

definition shuffle :: "(nat \<Rightarrow> nat) \<Rightarrow> TetrominoType list \<Rightarrow> nat \<Rightarrow> TetrominoType list \<times> nat" where
  "shuffle r items pos = shuffleLoop r (length items - 1) items pos"

text \<open>One iteration of the loop of \<open>ensureQueue\<close>: push a shuffled bag.\<close>

definition pushBag :: "TetrisEngine \<Rightarrow> TetrisEngine" where
  "pushBag s =
     (let (bag, pos) = shuffle (rnd s) TETROMINO_ORDER (rndPos s)
      in s\<lparr>queue := queue s @ bag, rndPos := pos\<rparr>)"

function ensureQueue :: "TetrisEngine \<Rightarrow> TetrisEngine" where
  "ensureQueue s =
     (if length (queue s) < length TETROMINO_ORDER then ensureQueue (pushBag s) else s)"
  by pat_completeness auto
termination
proof (relation "measure (\<lambda>s. length TETROMINO_ORDER - length (queue s))")
  show "wf (measure (\<lambda>s. length TETROMINO_ORDER - length (queue s)))"
    by simp
next
  fix s :: TetrisEngine
  assume short: "length (queue s) < length TETROMINO_ORDER"
  have len: "length (fst (shuffleLoop r k items pos)) = length items" for r k items pos
    by (induction r k items pos rule: shuffleLoop.induct) (simp_all add: Let_def)
  have "length (queue (pushBag s)) = length (queue s) + length TETROMINO_ORDER"
    using len [of "rnd s" "length TETROMINO_ORDER - 1" TETROMINO_ORDER "rndPos s"]
    by (simp add: pushBag_def shuffle_def split_def Let_def)
  with short show "(pushBag s, s) \<in> measure (\<lambda>s. length TETROMINO_ORDER - length (queue s))"
    by simp
qed

section \<open>Level and gravity\<close>

definition getLevel :: "TetrisEngine \<Rightarrow> int" where
  "getLevel s = linesCleared s div 10 + 1"

definition getDropInterval :: "TetrisEngine \<Rightarrow> int" where
  "getDropInterval s =
     (let level = getLevel s; base = 1000; decay = min (level - 1) 10 * 60
      in max (base - decay) 300)"

definition isRunning :: "TetrisEngine \<Rightarrow> bool" where
  "isRunning s = (running s \<and> \<not> gameOver s)"

section \<open>Spawning\<close>

text \<open>\<open>matrix[0].length\<close> raises on an empty matrix.\<close>

definition firstRowLength :: "Matrix \<Rightarrow> nat result" where
  "firstRowLength m = (case m of [] \<Rightarrow> Inl TypeError | r0 # _ \<Rightarrow> Inr (length r0))"

definition spawnNextPiece :: "TetrisEngine \<Rightarrow> TetrisEngine result" where
  "spawnNextPiece s =
     (let s1 = ensureQueue s in
      case queue s1 of
        [] \<Rightarrow> Inr s1
      | k # rest \<Rightarrow>
          let s2 = s1\<lparr>queue := rest\<rparr>; m = getMatrixForType k in
          bindR (firstRowLength m) (\<lambda>n.
            let x = (BOARD_WIDTH - int n) div 2; y = - 1;
                candidate = \<lparr>ptype = k, matrix = m, px = x, py = y\<rparr>
            in bindR (canPlace (board s2) m x y) (\<lambda>ok.
              if ok then Inr (s2\<lparr>currentPiece := Some candidate\<rparr>)
              else Inr (s2\<lparr>currentPiece := None, gameOver := True, running := False\<rparr>))))"

section \<open>Locking\<close>

text \<open>
  The write \<open>this.board[boardY][boardX] = type\<close> raises when the board has no row
  \<open>boardY\<close>. On a row that is too short JavaScript extends the row; the slots in
  between are written here as \<open>None\<close>.
\<close>

definition writeCell :: "Cell list \<Rightarrow> nat \<Rightarrow> TetrominoType \<Rightarrow> Cell list" where
  "writeCell r i k =
     (if i < length r then r[i := Some k] else r @ replicate (i - length r) None @ [Some k])"

fun lockCols :: "Board \<Rightarrow> TetrominoType \<Rightarrow> int list \<Rightarrow> int \<Rightarrow> int \<Rightarrow> int \<Rightarrow> Board result" where
  "lockCols b k [] x boardY col = Inr b"
| "lockCols b k (v # vs) x boardY col =
     (if v = 0 then lockCols b k vs x boardY (col + 1)
      else let boardX = x + col in
        if boardY < 0 then lockCols b k vs x boardY (col + 1)
        else if boardY \<ge> BOARD_HEIGHT \<or> boardX < 0 \<or> boardX \<ge> BOARD_WIDTH
          then lockCols b k vs x boardY (col + 1)
        else if nat boardY \<ge> length b then Inl TypeError
        else lockCols (b[nat boardY := writeCell (b ! nat boardY) (nat boardX) k]) k vs x boardY
               (col + 1))"

fun lockRows :: "Board \<Rightarrow> TetrominoType \<Rightarrow> Matrix \<Rightarrow> int \<Rightarrow> int \<Rightarrow> int \<Rightarrow> Board result" where
  "lockRows b k [] x y row = Inr b"
| "lockRows b k (r # rs) x y row =
     bindR (lockCols b k r x (y + row) 0) (\<lambda>b1. lockRows b1 k rs x y (row + 1))"

definition lockCurrentPiece :: "TetrisEngine \<Rightarrow> TetrisEngine result" where
  "lockCurrentPiece s =
     (case currentPiece s of
        None \<Rightarrow> Inr s
      | Some p \<Rightarrow>
          bindR (lockRows (board s) (ptype p) (matrix p) (px p) (py p) 0) (\<lambda>b1.
            Inr (s\<lparr>board := b1, currentPiece := None\<rparr>)))"

section \<open>Line clearing\<close>

text \<open>\<open>row.every((cell) => cell)\<close>\<close>

definition complete :: "Cell list \<Rightarrow> bool" where
  "complete r = list_all (\<lambda>cell. cell \<noteq> None) r"

text \<open>
  The scan \<open>for (row = height - 1; row >= 0; row -= 1)\<close>. After a removal the
  source adds one to \<open>row\<close> and the loop header takes it away again, so the same
  index is tested once more. \<open>this.board[row].every\<close> raises when the board has
  no row \<open>row\<close>.
\<close>

function clearLoop :: "Board \<Rightarrow> int \<Rightarrow> int \<Rightarrow> (Board \<times> int) result" where
  "clearLoop b row lines =
     (if row < 0 then Inr (b, lines)
      else if nat row \<ge> length b then Inl TypeError
      else if complete (b ! nat row)
        then clearLoop (replicate (nat BOARD_WIDTH) None # (take (nat row) b @ drop (Suc (nat row)) b))
               row (lines + 1)
      else clearLoop b (row - 1) lines)"
  by pat_completeness auto
termination
proof (relation "measures [\<lambda>(b, row, lines). length (filter complete b),
                           \<lambda>(b, row, lines). nat (row + 1)]")
  show "wf (measures [\<lambda>(b, row, lines). length (filter complete b),
                      \<lambda>(b, row, lines). nat (row + 1)])"
    by simp
next
  fix b :: Board and row lines :: int
  assume a: "\<not> row < 0" "\<not> length b \<le> nat row" "complete (b ! nat row)"
  let ?n = "nat row"
  have split: "b = take ?n b @ (b ! ?n) # drop (Suc ?n) b"
    using a(2) by (simp add: id_take_nth_drop)
  have "length (filter complete b) =
      length (filter complete (take ?n b)) + 1 + length (filter complete (drop (Suc ?n) b))"
    using a(3) by (subst split) simp
  moreover have "\<not> complete (replicate (nat BOARD_WIDTH) None)"
    by (simp add: complete_def BOARD_WIDTH_def list_all_iff)
  ultimately have "length (filter complete
      (replicate (nat BOARD_WIDTH) None # (take ?n b @ drop (Suc ?n) b)))
    < length (filter complete b)"
    by simp
  then show "((replicate (nat BOARD_WIDTH) None # take ?n b @ drop (Suc ?n) b, row, lines + 1),
      b, row, lines)
    \<in> measures [\<lambda>(b, row, lines). length (filter complete b), \<lambda>(b, row, lines). nat (row + 1)]"
    by simp
next
  fix b :: Board and row lines :: int
  assume "\<not> row < 0"
  then show "((b, row - 1, lines), b, row, lines)
    \<in> measures [\<lambda>(b, row, lines). length (filter complete b), \<lambda>(b, row, lines). nat (row + 1)]"
    by simp
qed

text \<open>\<open>SCORE_TABLE[lines] || 0\<close>: an index past the table gives \<open>undefined\<close>, hence 0.\<close>

definition scoreFor :: "int \<Rightarrow> int" where
  "scoreFor lines =
     (if 0 \<le> lines \<and> nat lines < length SCORE_TABLE then SCORE_TABLE ! nat lines else 0)"

definition clearLines :: "TetrisEngine \<Rightarrow> TetrisEngine result" where
  "clearLines s =
     bindR (clearLoop (board s) (BOARD_HEIGHT - 1) 0) (\<lambda>(b1, lines).
       let s1 = s\<lparr>board := b1\<rparr> in
       if lines > 0 then
         let s2 = s1\<lparr>linesCleared := linesCleared s1 + lines\<rparr>;
             level = getLevel s2
         in Inr (s2\<lparr>score := score s2 + scoreFor lines * level\<rparr>)
       else Inr s1)"

section \<open>Movement and rotation\<close>

definition shiftPiece :: "int \<Rightarrow> TetrisEngine \<Rightarrow> TetrisEngine result" where
  "shiftPiece deltaX s =
     (case currentPiece s of
        None \<Rightarrow> Inr s
      | Some p \<Rightarrow>
          let targetX = px p + deltaX in
          bindR (canPlace (board s) (matrix p) targetX (py p)) (\<lambda>ok.
            if ok then Inr (s\<lparr>currentPiece := Some (p\<lparr>px := targetX\<rparr>)\<rparr>) else Inr s))"

text \<open>
  The read \<open>matrix[row][col]\<close> of \<open>rotateMatrix\<close>. Past the end of a ragged row
  JavaScript reads \<open>undefined\<close>, which is falsy; it is written as \<open>0\<close> here.
\<close>

definition entry :: "Matrix \<Rightarrow> nat \<Rightarrow> nat \<Rightarrow> int" where
  "entry m row col = (if col < length (m ! row) then m ! row ! col else 0)"

text \<open>
  \<open>rotateMatrix\<close>: a \<open>cols\<close>-by-\<open>rows\<close> result filled with zeros, then the two
  nested loops that assign \<open>result[col][rows - row - 1] = matrix[row][col]\<close>.
\<close>

definition rotateMatrix :: "Matrix \<Rightarrow> Matrix result" where
  "rotateMatrix m =
     (let rows = length m in
      bindR (firstRowLength m) (\<lambda>cols.
        let result = replicate cols (replicate rows 0) in
        Inr (fold (\<lambda>row res.
               fold (\<lambda>col res1. res1[col := (res1 ! col)[rows - row - 1 := entry m row col]])
                 [0..<cols] res)
             [0..<rows] result)))"

text \<open>The loop \<open>for (const offset of kicks)\<close> of \<open>rotatePiece\<close>.\<close>

fun tryKicks :: "TetrisEngine \<Rightarrow> ActivePiece \<Rightarrow> Matrix \<Rightarrow> int list \<Rightarrow> TetrisEngine result" where
  "tryKicks s p rotated [] = Inr s"
| "tryKicks s p rotated (offset # kicks) =
     (let targetX = px p + offset in
      bindR (canPlace (board s) rotated targetX (py p)) (\<lambda>ok.
        if ok then Inr (s\<lparr>currentPiece := Some (p\<lparr>matrix := rotated, px := targetX\<rparr>)\<rparr>)
        else tryKicks s p rotated kicks))"

definition rotatePiece :: "TetrisEngine \<Rightarrow> TetrisEngine result" where
  "rotatePiece s =
     (case currentPiece s of
        None \<Rightarrow> Inr s
      | Some p \<Rightarrow>
          bindR (rotateMatrix (matrix p)) (\<lambda>rotated. tryKicks s p rotated [0, - 1, 1, - 2, 2]))"

section \<open>Gravity step and hard drop\<close>

definition stepDown :: "bool \<Rightarrow> TetrisEngine \<Rightarrow> TetrisEngine result" where
  "stepDown manual s =
     (case currentPiece s of
        None \<Rightarrow> Inr s
      | Some p \<Rightarrow>
          bindR (canPlace (board s) (matrix p) (px p) (py p + 1)) (\<lambda>ok.
            if ok then
              let s1 = s\<lparr>currentPiece := Some (p\<lparr>py := py p + 1\<rparr>)\<rparr>
              in Inr (if manual then s1\<lparr>score := score s1 + 1\<rparr> else s1)
            else
              bindR (lockCurrentPiece s) (\<lambda>s1.
              bindR (clearLines s1) (\<lambda>s2.
              spawnNextPiece s2))))"

text \<open>
  The descent loop of \<open>hardDrop\<close>. It does not end on a shape without a filled
  cell; \<open>None\<close> is the loop that never returns.
\<close>

partial_function (option) hardDropLoop ::
  "Board \<Rightarrow> ActivePiece \<Rightarrow> int \<Rightarrow> (ActivePiece \<times> int) result option" where
  "hardDropLoop b p distance =
     (case canPlace b (matrix p) (px p) (py p + 1) of
        Inl e \<Rightarrow> Some (Inl e)
      | Inr ok \<Rightarrow>
          if ok then hardDropLoop b (p\<lparr>py := py p + 1\<rparr>) (distance + 1)
          else Some (Inr (p, distance)))"

declare hardDropLoop.simps [code]

definition hardDrop :: "TetrisEngine \<Rightarrow> TetrisEngine result option" where
  "hardDrop s =
     (case currentPiece s of
        None \<Rightarrow> Some (Inr s)
      | Some p \<Rightarrow>
          (case hardDropLoop (board s) p 0 of
             None \<Rightarrow> None
           | Some (Inl e) \<Rightarrow> Some (Inl e)
           | Some (Inr (p1, distance)) \<Rightarrow>
               let s1 = s\<lparr>currentPiece := Some p1\<rparr>;
                   s2 = (if distance > 0 then s1\<lparr>score := score s1 + distance * 2\<rparr> else s1)
               in Some (bindR (lockCurrentPiece s2) (\<lambda>s3.
                        bindR (clearLines s3) (\<lambda>s4.
                        spawnNextPiece s4)))))"

definition handleAction :: "InputAction \<Rightarrow> TetrisEngine \<Rightarrow> TetrisEngine result option" where
  "handleAction action s =
     (if \<not> isRunning s then Some (Inr s)
      else case action of
        MoveLeft \<Rightarrow> Some (shiftPiece (- 1) s)
      | MoveRight \<Rightarrow> Some (shiftPiece 1 s)
      | Rotate \<Rightarrow> Some (rotatePiece s)
      | SoftDrop \<Rightarrow> Some (stepDown True s)
      | HardDrop \<Rightarrow> hardDrop s)"

section \<open>Ghost row, render state and snapshot\<close>

partial_function (option) ghostLoop :: "Board \<Rightarrow> ActivePiece \<Rightarrow> int \<Rightarrow> int result option" where
  "ghostLoop b p y =
     (case canPlace b (matrix p) (px p) (y + 1) of
        Inl e \<Rightarrow> Some (Inl e)
      | Inr ok \<Rightarrow> if ok then ghostLoop b p (y + 1) else Some (Inr y))"

declare ghostLoop.simps [code]

definition computeGhostY :: "TetrisEngine \<Rightarrow> int option result option" where
  "computeGhostY s =
     (case currentPiece s of
        None \<Rightarrow> Some (Inr None)
      | Some p \<Rightarrow>
          (case ghostLoop (board s) p (py p) of
             None \<Rightarrow> None
           | Some (Inl e) \<Rightarrow> Some (Inl e)
           | Some (Inr y) \<Rightarrow> Some (Inr (Some y))))"

definition cloneBoard :: "TetrisEngine \<Rightarrow> Board" where
  "cloneBoard s = map (\<lambda>row. row) (board s)"

definition clonePiece :: "ActivePiece \<Rightarrow> ActivePiece" where
  "clonePiece piece =
     \<lparr>ptype = ptype piece, matrix = map (\<lambda>row. row) (matrix piece), px = px piece, py = py piece\<rparr>"

definition getSnapshot :: "TetrisEngine \<Rightarrow> GameSnapshot" where
  "getSnapshot s =
     \<lparr>sBoard = cloneBoard s,
      sCurrentPiece = (case currentPiece s of Some p \<Rightarrow> Some (clonePiece p) | None \<Rightarrow> None),
      sQueue = queue s,
      sScore = score s,
      sLinesCleared = linesCleared s,
      isGameOver = gameOver s\<rparr>"

text \<open>
  \<open>getRenderState\<close> tops the queue up first, so it returns the new engine state
  beside the render state.
\<close>

definition getRenderState :: "TetrisEngine \<Rightarrow> (RenderState \<times> TetrisEngine) result option" where
  "getRenderState s =
     (let s1 = ensureQueue s in
      case (if currentPiece s1 \<noteq> None then computeGhostY s1 else Some (Inr None)) of
        None \<Rightarrow> None
      | Some (Inl e) \<Rightarrow> Some (Inl e)
      | Some (Inr g) \<Rightarrow>
          Some (Inr
            (\<lparr>sBoard = cloneBoard s1,
              sCurrentPiece = (case currentPiece s1 of Some p \<Rightarrow> Some (clonePiece p) | None \<Rightarrow> None),
              sQueue = queue s1,
              sScore = score s1,
              sLinesCleared = linesCleared s1,
              isGameOver = gameOver s1,
              width = BOARD_WIDTH,
              height = BOARD_HEIGHT,
              level = getLevel s1,
              nextPiece = (case queue s1 of [] \<Rightarrow> None | k # _ \<Rightarrow> Some k),
              ghostY = g,
              dropInterval = getDropInterval s1\<rparr>, s1)))"

section \<open>Lifecycle\<close>

definition hydrateFromSnapshot :: "GameSnapshot \<Rightarrow> TetrisEngine \<Rightarrow> TetrisEngine result" where
  "hydrateFromSnapshot snapshot s =
     (let s1 = s\<lparr>board := map (\<lambda>row. row) (sBoard snapshot),
                 currentPiece := (case sCurrentPiece snapshot of
                                    Some p \<Rightarrow> Some (clonePiece p) | None \<Rightarrow> None),
                 queue := sQueue snapshot,
                 score := sScore snapshot,
                 linesCleared := sLinesCleared snapshot,
                 gameOver := isGameOver snapshot\<rparr>;
          s2 = (if length (queue s1) = 0 then ensureQueue s1 else s1)
      in if currentPiece s2 = None \<and> \<not> gameOver s2 then spawnNextPiece s2 else Inr s2)"

definition start :: "GameSnapshot option \<Rightarrow> TetrisEngine \<Rightarrow> TetrisEngine result" where
  "start snapshot s =
     bindR (case snapshot of
              Some sn \<Rightarrow> hydrateFromSnapshot sn s
            | None \<Rightarrow>
                spawnNextPiece (ensureQueue
                  (s\<lparr>board := createEmptyBoard, queue := [], currentPiece := None,
                     score := 0, linesCleared := 0, gameOver := False\<rparr>)))
       (\<lambda>s1. Inr (s1\<lparr>running := \<not> gameOver s1\<rparr>))"

definition pause :: "TetrisEngine \<Rightarrow> TetrisEngine" where
  "pause s = s\<lparr>running := False\<rparr>"

definition resume :: "TetrisEngine \<Rightarrow> TetrisEngine" where
  "resume s = (if \<not> gameOver s then s\<lparr>running := True\<rparr> else s)"

section \<open>Predicates of the specification\<close>

text \<open>The grid of the data model: \<open>BOARD_HEIGHT\<close> rows of \<open>BOARD_WIDTH\<close> cells.\<close>

definition wf_board :: "Board \<Rightarrow> bool" where
  "wf_board b = (length b = 20 \<and> list_all (\<lambda>r. length r = 10) b)"

text \<open>Cell \<open>(r, c)\<close> of the shape exists and is filled.\<close>

definition filled :: "Matrix \<Rightarrow> nat \<Rightarrow> nat \<Rightarrow> bool" where
  "filled m r c = (r < length m \<and> c < length (m ! r) \<and> m ! r ! c \<noteq> 0)"

text \<open>The board cell at an absolute position is inside the grid and not empty.\<close>

definition occupied :: "Board \<Rightarrow> int \<Rightarrow> int \<Rightarrow> bool" where
  "occupied b row col =
     (0 \<le> row \<and> row < BOARD_HEIGHT \<and> 0 \<le> col \<and> col < BOARD_WIDTH \<and>
      b ! nat row ! nat col \<noteq> None)"

text \<open>What makes a filled shape cell at absolute position \<open>(row, col)\<close> collide.\<close>

definition rejects :: "Board \<Rightarrow> int \<Rightarrow> int \<Rightarrow> bool" where
  "rejects b row col =
     (col < 0 \<or> col \<ge> BOARD_WIDTH \<or> row \<ge> BOARD_HEIGHT \<or> occupied b row col)"

text \<open>A matrix of \<open>R\<close> rows, each of \<open>C\<close> entries.\<close>

definition rect :: "Matrix \<Rightarrow> nat \<Rightarrow> nat \<Rightarrow> bool" where
  "rect m R C = (length m = R \<and> list_all (\<lambda>row. length row = C) m)"

text \<open>A shape of the data model: rectangular, with a row and a filled cell.\<close>

definition okMatrix :: "Matrix \<Rightarrow> bool" where
  "okMatrix m = ((\<exists>R C. rect m R C \<and> 0 < R) \<and> (\<exists>r c. filled m r c))"

text \<open>The candidate that \<open>spawnNextPiece\<close> builds for kind \<open>k\<close>.\<close>

definition spawnPiece :: "TetrominoType \<Rightarrow> ActivePiece" where
  "spawnPiece k = \<lparr>ptype = k, matrix = TETROMINO_SHAPES k,
     px = (BOARD_WIDTH - int (length (hd (TETROMINO_SHAPES k)))) div 2, py = - 1\<rparr>"

text \<open>
  Row \<open>y'\<close> is where a shape at column \<open>x\<close> lands from row \<open>y\<close>: every single-row
  descent down to \<open>y'\<close> is free of collision and the next one is not.
\<close>

definition landsAt :: "Board \<Rightarrow> Matrix \<Rightarrow> int \<Rightarrow> int \<Rightarrow> int \<Rightarrow> bool" where
  "landsAt b m x y y' =
     (y \<le> y' \<and> list_all (\<lambda>k. canPlace b m x k = Inr True) [y + 1..y'] \<and>
      canPlace b m x (y' + 1) = Inr False)"

text \<open>
  The states of the data model: a 20-by-10 grid, a score and a line count that are
  not negative, and an active piece (if any) whose shape is a rectangular matrix
  with a filled cell.
\<close>

definition wf_engine :: "TetrisEngine \<Rightarrow> bool" where
  "wf_engine s =
     (wf_board (board s) \<and> 0 \<le> score s \<and> 0 \<le> linesCleared s \<and>
      (case currentPiece s of None \<Rightarrow> True | Some p \<Rightarrow> okMatrix (matrix p)))"

text \<open>A snapshot of the data model.\<close>

definition wf_snapshot :: "GameSnapshot \<Rightarrow> bool" where
  "wf_snapshot snap =
     (wf_board (sBoard snap) \<and> 0 \<le> sScore snap \<and> 0 \<le> sLinesCleared snap \<and>
      (case sCurrentPiece snap of None \<Rightarrow> True | Some p \<Rightarrow> okMatrix (matrix p)))"

text \<open>What every operation other than \<open>start\<close> keeps or only lets grow.\<close>

definition advances :: "TetrisEngine \<Rightarrow> TetrisEngine \<Rightarrow> bool" where
  "advances s s' =
     (wf_engine s' \<and> score s \<le> score s' \<and> linesCleared s \<le> linesCleared s' \<and>
      (gameOver s \<longrightarrow> gameOver s') \<and>
      (6 \<le> length (queue s) \<longrightarrow> 6 \<le> length (queue s')) \<and>
      ((currentPiece s = None \<longrightarrow> gameOver s) \<longrightarrow> (currentPiece s' = None \<longrightarrow> gameOver s')) \<and>
      ((gameOver s \<longrightarrow> currentPiece s = None \<and> \<not> running s) \<longrightarrow>
       (gameOver s' \<longrightarrow> currentPiece s' = None \<and> \<not> running s')))"

text \<open>
  The states on which the snapshot round trip is exact: a state of the data model
  with at least 3 queued kinds that has no active piece only when it is game over.
\<close>

definition restorable :: "TetrisEngine \<Rightarrow> bool" where
  "restorable s =
     (wf_engine s \<and> 3 \<le> length (queue s) \<and> (currentPiece s = None \<longrightarrow> gameOver s))"

section \<open>Sessions of operations\<close>

text \<open>
  The public operations of the engine. \<open>exec\<close> gives the engine state after the
  call; \<open>getSnapshot\<close> only reads, \<open>getRenderState\<close> tops the queue up.
\<close>

datatype Op =
    OpStart "GameSnapshot option"
  | OpPause
  | OpResume
  | OpHandleAction InputAction
  | OpStepDown bool
  | OpGetRenderState
  | OpGetSnapshot

fun exec :: "Op \<Rightarrow> TetrisEngine \<Rightarrow> TetrisEngine result option" where
  "exec (OpStart snapshot) s = Some (start snapshot s)"
| "exec OpPause s = Some (Inr (pause s))"
| "exec OpResume s = Some (Inr (resume s))"
| "exec (OpHandleAction action) s = handleAction action s"
| "exec (OpStepDown manual) s = Some (stepDown manual s)"
| "exec OpGetRenderState s =
     (case getRenderState s of
        None \<Rightarrow> None
      | Some (Inl e) \<Rightarrow> Some (Inl e)
      | Some (Inr (r, s1)) \<Rightarrow> Some (Inr s1))"
| "exec OpGetSnapshot s = Some (Inr s)"

text \<open>The calls of \<open>start\<close>, with or without a snapshot.\<close>

fun isStart :: "Op \<Rightarrow> bool" where
  "isStart (OpStart snapshot) = True"
| "isStart op = False"

text \<open>A sequence of calls; it stops at the first call that raises or does not return.\<close>

fun run :: "Op list \<Rightarrow> TetrisEngine \<Rightarrow> TetrisEngine result option" where
  "run [] s = Some (Inr s)"
| "run (op # ops) s =
     (case exec op s of
        None \<Rightarrow> None
      | Some (Inl e) \<Rightarrow> Some (Inl e)
      | Some (Inr s1) \<Rightarrow> run ops s1)"

text \<open>
  The states reachable from \<open>start()\<close> with no snapshot, on an engine just
  constructed (whatever \<open>Math.random\<close> will draw), by public operations; a later
  \<open>start\<close> is again one with no snapshot.
\<close>

inductive reachable :: "TetrisEngine \<Rightarrow> bool" where
  fresh: "start None (newEngine r pos) = Inr s \<Longrightarrow> reachable s"
| step: "reachable s \<Longrightarrow> op = OpStart None \<or> \<not> isStart op \<Longrightarrow> exec op s = Some (Inr s') \<Longrightarrow>
    reachable s'"

code_pred reachable .

text \<open>
  The invariant of the reachable states: a state of the data model with at least 6
  queued kinds, in which there is no active piece exactly when the game is over, and
  a finished game is not running.
\<close>

definition engine_inv :: "TetrisEngine \<Rightarrow> bool" where
  "engine_inv s =
     (wf_engine s \<and> 6 \<le> length (queue s) \<and>
      (currentPiece s = None \<longrightarrow> gameOver s) \<and>
      (gameOver s \<longrightarrow> currentPiece s = None \<and> \<not> running s))"

text \<open>The kind, x and y of the active piece as \<open>getRenderState\<close> reports them.\<close>

definition renderedPiece :: "TetrisEngine \<Rightarrow> (TetrominoType \<times> int \<times> int) option result option" where
  "renderedPiece s =
     (case getRenderState s of
        None \<Rightarrow> None
      | Some (Inl e) \<Rightarrow> Some (Inl e)
      | Some (Inr (r, s1)) \<Rightarrow>
          Some (Inr (map_option (\<lambda>q. (ptype q, px q, py q)) (sCurrentPiece r))))"

text \<open>The first 3 queue entries as \<open>getRenderState\<close> reports them.\<close>

definition renderedQueue :: "TetrisEngine \<Rightarrow> TetrominoType list result option" where
  "renderedQueue s =
     (case getRenderState s of
        None \<Rightarrow> None
      | Some (Inl e) \<Rightarrow> Some (Inl e)
      | Some (Inr (r, s1)) \<Rightarrow> Some (Inr (take 3 (sQueue r))))"

section \<open>Example states\<close>

text \<open>A random source whose every draw picks index 0.\<close>

definition zeroDraws :: "nat \<Rightarrow> nat" where
  "zeroDraws n = 0"

text \<open>The state after \<open>start()\<close> on a new engine, and after \<open>n\<close> hard drops.\<close>

definition played :: "nat \<Rightarrow> TetrisEngine" where
  "played n =
     (case run (OpStart None # replicate n (OpHandleAction HardDrop)) (newEngine zeroDraws 0) of
        Some (Inr s) \<Rightarrow> s
      | _ \<Rightarrow> newEngine zeroDraws 0)"



text \<open>A vertical I against the right wall of the empty board, in a running engine.\<close>

definition c3_piece :: ActivePiece where
  "c3_piece = \<lparr>ptype = I_piece, matrix = [[1], [1], [1], [1]], px = 8, py = 0\<rparr>"

definition c3_state :: TetrisEngine where
  "c3_state = (newEngine zeroDraws 0)\<lparr>currentPiece := Some c3_piece, running := True\<rparr>"

text \<open>A board whose top row is taken in column 4, and a queue headed by T.\<close>

definition c5_state :: TetrisEngine where
  "c5_state = (newEngine zeroDraws 0)
     \<lparr>board := createEmptyBoard[0 := (replicate 10 None)[4 := Some O_piece]],
      queue := [T_piece, I_piece, J_piece, L_piece, O_piece, S_piece, Z_piece],
      running := True\<rparr>"

text \<open>
  The game-over state that the colliding spawn leaves from \<open>c5_state\<close>, a saved
  game that is not over, and the engine after \<open>start\<close> with that snapshot.
\<close>

definition c5_over :: TetrisEngine where
  "c5_over = c5_state
     \<lparr>queue := [I_piece, J_piece, L_piece, O_piece, S_piece, Z_piece],
      currentPiece := None, gameOver := True, running := False\<rparr>"

definition c5_saved :: GameSnapshot where
  "c5_saved =
     \<lparr>sBoard = createEmptyBoard,
      sCurrentPiece = Some \<lparr>ptype = O_piece, matrix = [[1, 1], [1, 1]], px = 4, py = 7\<rparr>,
      sQueue = [S_piece, T_piece, Z_piece],
      sScore = 12, sLinesCleared = 0, isGameOver = False\<rparr>"

definition c5_revived :: TetrisEngine where
  "c5_revived = c5_over
     \<lparr>board := createEmptyBoard,
      currentPiece := Some \<lparr>ptype = O_piece, matrix = [[1, 1], [1, 1]], px = 4, py = 7\<rparr>,
      queue := [S_piece, T_piece, Z_piece],
      score := 12, linesCleared := 0, gameOver := False, running := True\<rparr>"

text \<open>
  What \<open>start()\<close> returns on a new engine when every draw of \<open>Math.random\<close>
  picks index 0: the bag is J L O S T Z I, J is spawned, six kinds stay queued.
\<close>

definition freshlyStarted :: TetrisEngine where
  "freshlyStarted =
     \<lparr>board = createEmptyBoard,
      queue = [L_piece, O_piece, S_piece, T_piece, Z_piece, I_piece],
      currentPiece = Some \<lparr>ptype = J_piece, matrix = [[1, 0, 0], [1, 1, 1]], px = 3, py = - 1\<rparr>,
      running = True, score = 0, linesCleared = 0, gameOver = False,
      rnd = zeroDraws, rndPos = 6\<rparr>"

text \<open>A random source whose \<open>n\<close>-th draw is \<open>n\<close>.\<close>

definition countingDraws :: "nat \<Rightarrow> nat" where
  "countingDraws n = n"

text \<open>
  A saved game with an active piece and a single queued kind, the engine started
  from it, and the engine restored from that engine's snapshot once the source has
  been rendered (six draws later).
\<close>

definition c4_short :: GameSnapshot where
  "c4_short =
     \<lparr>sBoard = createEmptyBoard,
      sCurrentPiece = Some \<lparr>ptype = O_piece, matrix = [[1, 1], [1, 1]], px = 4, py = 7\<rparr>,
      sQueue = [S_piece],
      sScore = 0, sLinesCleared = 0, isGameOver = False\<rparr>"

definition c4_source :: TetrisEngine where
  "c4_source =
     \<lparr>board = createEmptyBoard, queue = [S_piece],
      currentPiece = Some \<lparr>ptype = O_piece, matrix = [[1, 1], [1, 1]], px = 4, py = 7\<rparr>,
      running = True, score = 0, linesCleared = 0, gameOver = False,
      rnd = countingDraws, rndPos = 0\<rparr>"

definition c4_restored :: TetrisEngine where
  "c4_restored = c4_source\<lparr>rndPos := 6\<rparr>"

text \<open>The same engine with 3 queued kinds: not reachable from \<open>start()\<close>, but restorable.\<close>

definition c4_three :: TetrisEngine where
  "c4_three = c4_source\<lparr>queue := [S_piece, T_piece, Z_piece]\<rparr>"

text \<open>A running engine whose vertical I has landed on the floor of the empty board.\<close>

definition c6_landed :: TetrisEngine where
  "c6_landed = (newEngine zeroDraws 0)
     \<lparr>queue := [T_piece, O_piece],
      currentPiece := Some \<lparr>ptype = I_piece, matrix = [[1], [1], [1], [1]], px = 4, py = 16\<rparr>,
      running := True\<rparr>"

text \<open>The I piece after one rotation: four rows of one cell.\<close>

definition verticalI :: Matrix where
  "verticalI = [[1], [1], [1], [1]]"

text \<open>A running engine with a vertical I in column 4 at the top of the empty board.\<close>

definition c7_state :: TetrisEngine where
  "c7_state = (newEngine zeroDraws 0)
     \<lparr>queue := [T_piece, O_piece],
      currentPiece := Some \<lparr>ptype = I_piece, matrix = verticalI, px = 4, py = 0\<rparr>,
      running := True, score := 7\<rparr>"

section \<open>Properties of the collision test\<close>

lemma wf_board_row:
  "wf_board b \<Longrightarrow> 0 \<le> i \<Longrightarrow> i < 20 \<Longrightarrow> nat i < length b \<and> length (b ! nat i) = 10"
  by (auto simp: wf_board_def list_all_length)

lemma canPlaceCols_char:
  assumes "wf_board b"
  shows "canPlaceCols b vs x boardY col =
    Inr (\<not> (\<exists>c < length vs. vs ! c \<noteq> 0 \<and> rejects b boardY (x + col + int c)))"
  using assms
proof (induction vs arbitrary: col)
  case Nil
  then show ?case by simp
next
  case (Cons v vs)
  have shift: "(\<exists>c < length (v # vs). (v # vs) ! c \<noteq> 0 \<and> rejects b boardY (x + col + int c)) =
    ((v \<noteq> 0 \<and> rejects b boardY (x + col)) \<or>
     (\<exists>c < length vs. vs ! c \<noteq> 0 \<and> rejects b boardY (x + (col + 1) + int c)))"
    (is "?L = ?R")
  proof
    assume ?L
    then obtain c where c: "c < length (v # vs)" "(v # vs) ! c \<noteq> 0"
      "rejects b boardY (x + col + int c)" by blast
    show ?R
    proof (cases c)
      case 0
      with c show ?thesis by simp
    next
      case (Suc k)
      with c have "k < length vs" "vs ! k \<noteq> 0" "rejects b boardY (x + (col + 1) + int k)"
        by (simp_all add: algebra_simps)
      then show ?thesis by blast
    qed
  next
    assume ?R
    then show ?L
    proof
      assume "v \<noteq> 0 \<and> rejects b boardY (x + col)"
      then have "0 < length (v # vs) \<and> (v # vs) ! 0 \<noteq> 0 \<and> rejects b boardY (x + col + int 0)"
        by simp
      then show ?L by blast
    next
      assume "\<exists>c < length vs. vs ! c \<noteq> 0 \<and> rejects b boardY (x + (col + 1) + int c)"
      then obtain k where "k < length vs" "vs ! k \<noteq> 0" "rejects b boardY (x + (col + 1) + int k)"
        by blast
      then have "Suc k < length (v # vs) \<and> (v # vs) ! Suc k \<noteq> 0 \<and>
        rejects b boardY (x + col + int (Suc k))"
        by (simp add: algebra_simps)
      then show ?L by blast
    qed
  qed
  have IH: "canPlaceCols b vs x boardY (col + 1) =
    Inr (\<not> (\<exists>c < length vs. vs ! c \<noteq> 0 \<and> rejects b boardY (x + (col + 1) + int c)))"
    using Cons by simp
  show ?case
  proof (cases "v = 0")
    case True
    then show ?thesis using IH shift by simp
  next
    case False
    show ?thesis
    proof (cases "rejects b boardY (x + col)")
      case True
      then have "canPlaceCols b (v # vs) x boardY col = Inr False"
        using False wf_board_row [OF Cons.prems, of boardY]
        by (auto simp: rejects_def occupied_def BOARD_WIDTH_def BOARD_HEIGHT_def Let_def)
      then show ?thesis using True False shift by simp
    next
      case nr: False
      then have "canPlaceCols b (v # vs) x boardY col = canPlaceCols b vs x boardY (col + 1)"
        using False wf_board_row [OF Cons.prems, of boardY]
        by (auto simp: rejects_def occupied_def BOARD_WIDTH_def BOARD_HEIGHT_def Let_def)
      then show ?thesis using nr IH shift by simp
    qed
  qed
qed

lemma canPlaceRows_char:
  assumes "wf_board b"
  shows "canPlaceRows b m x y row =
    Inr (\<not> (\<exists>r c. filled m r c \<and> rejects b (y + row + int r) (x + int c)))"
  using assms
proof (induction m arbitrary: row)
  case Nil
  then show ?case by (simp add: filled_def)
next
  case (Cons v m)
  have shift: "(\<exists>r c. filled (v # m) r c \<and> rejects b (y + row + int r) (x + int c)) =
    ((\<exists>c < length v. v ! c \<noteq> 0 \<and> rejects b (y + row) (x + 0 + int c)) \<or>
     (\<exists>r c. filled m r c \<and> rejects b (y + (row + 1) + int r) (x + int c)))"
    (is "?L = (?A \<or> ?B)")
  proof
    assume ?L
    then obtain r c where rc: "filled (v # m) r c" "rejects b (y + row + int r) (x + int c)"
      by blast
    show "?A \<or> ?B"
    proof (cases r)
      case 0
      with rc have "c < length v \<and> v ! c \<noteq> 0 \<and> rejects b (y + row) (x + 0 + int c)"
        by (simp add: filled_def)
      then show ?thesis by blast
    next
      case (Suc k)
      with rc have "filled m k c \<and> rejects b (y + (row + 1) + int k) (x + int c)"
        by (simp add: filled_def algebra_simps)
      then show ?thesis by blast
    qed
  next
    assume "?A \<or> ?B"
    then show ?L
    proof
      assume ?A
      then obtain c where "c < length v" "v ! c \<noteq> 0" "rejects b (y + row) (x + 0 + int c)"
        by blast
      then have "filled (v # m) 0 c \<and> rejects b (y + row + int 0) (x + int c)"
        by (simp add: filled_def)
      then show ?L by blast
    next
      assume ?B
      then obtain k c where "filled m k c" "rejects b (y + (row + 1) + int k) (x + int c)"
        by blast
      then have "filled (v # m) (Suc k) c \<and> rejects b (y + row + int (Suc k)) (x + int c)"
        by (simp add: filled_def algebra_simps)
      then show ?L by blast
    qed
  qed
  have IH: "canPlaceRows b m x y (row + 1) =
    Inr (\<not> (\<exists>r c. filled m r c \<and> rejects b (y + (row + 1) + int r) (x + int c)))"
    using Cons by simp
  have cols: "canPlaceCols b v x (y + row) 0 =
    Inr (\<not> (\<exists>c < length v. v ! c \<noteq> 0 \<and> rejects b (y + row) (x + 0 + int c)))"
    using canPlaceCols_char [OF Cons.prems] by simp
  show ?case
  proof (cases "\<exists>c < length v. v ! c \<noteq> 0 \<and> rejects b (y + row) (x + 0 + int c)")
    case True
    then show ?thesis unfolding shift canPlaceRows.simps cols by simp
  next
    case False
    then show ?thesis unfolding shift canPlaceRows.simps cols using IH by simp
  qed
qed

lemma canPlace_char:
  "wf_board b \<Longrightarrow>
    canPlace b m x y = Inr (\<not> (\<exists>r c. filled m r c \<and> rejects b (y + int r) (x + int c)))"
  using canPlaceRows_char [of b m x y 0] by (simp add: canPlace_def)

section \<open>C1: the collision test\<close>

lemma wf_createEmptyBoard: "wf_board createEmptyBoard"
  by (simp add: wf_board_def createEmptyBoard_def BOARD_HEIGHT_def BOARD_WIDTH_def
      list_all_iff)

text \<open>
  C1. On a grid of the data model (20 rows of 10 cells), for every shape matrix
  and every integer position \<open>(x, y)\<close>, \<open>canPlace\<close> returns a boolean, and it
  returns false if and only if some filled cell \<open>(r, c)\<close> of the shape has its
  absolute column \<open>x + c\<close> outside \<open>[0, W)\<close>, or its absolute row \<open>y + r\<close> at
  or below \<open>H\<close>, or its absolute row inside \<open>[0, H)\<close> on a non-empty board
  cell. A negative absolute row is never a reason to reject: a shape whose filled
  cells all lie above the grid, in columns of the grid, is accepted whatever the
  board holds.
\<close>

theorem C1_canPlace_collision:
  assumes "wf_board b"
  shows "(canPlace b m x y = Inr True \<or> canPlace b m x y = Inr False) \<and>
    ((canPlace b m x y = Inr False) =
       (\<exists>r c. filled m r c \<and>
          (x + int c < 0 \<or> x + int c \<ge> BOARD_WIDTH \<or> y + int r \<ge> BOARD_HEIGHT \<or>
           occupied b (y + int r) (x + int c)))) \<and>
    ((\<forall>r c. filled m r c \<longrightarrow> y + int r < 0 \<and> 0 \<le> x + int c \<and> x + int c < BOARD_WIDTH)
       \<longrightarrow> canPlace b m x y = Inr True)"
proof -
  have char: "canPlace b m x y =
      Inr (\<not> (\<exists>r c. filled m r c \<and> rejects b (y + int r) (x + int c)))"
    using assms by (rule canPlace_char)
  have above: "canPlace b m x y = Inr True"
    if "\<forall>r c. filled m r c \<longrightarrow> y + int r < 0 \<and> 0 \<le> x + int c \<and> x + int c < BOARD_WIDTH"
  proof -
    have "\<not> rejects b (y + int r) (x + int c)" if "filled m r c" for r c
      using that \<open>\<forall>r c. filled m r c \<longrightarrow> _\<close>
      by (fastforce simp: rejects_def occupied_def BOARD_HEIGHT_def)
    then show ?thesis using char by auto
  qed
  show ?thesis
    using char above by (auto simp: rejects_def)
qed

theorem C1_canPlace_collision_witness:
  "wf_board createEmptyBoard \<and>
   canPlace createEmptyBoard [[1, 1, 1, 1]] 3 (- 1) = Inr True \<and>
   \<not> (\<exists>r c. filled [[1, 1, 1, 1]] r c \<and>
          (3 + int c < 0 \<or> 3 + int c \<ge> BOARD_WIDTH \<or> - 1 + int r \<ge> BOARD_HEIGHT \<or>
           occupied createEmptyBoard (- 1 + int r) (3 + int c)))"
proof -
  have above: "\<forall>r c. filled [[1, 1, 1, 1]] r c \<longrightarrow>
      - 1 + int r < 0 \<and> 0 \<le> 3 + int c \<and> 3 + int c < BOARD_WIDTH"
    by (auto simp: filled_def BOARD_WIDTH_def)
  show ?thesis
    using C1_canPlace_collision [OF wf_createEmptyBoard, of "[[1, 1, 1, 1]]" 3 "- 1"] above
      wf_createEmptyBoard
    by auto
qed

section \<open>General facts\<close>

declare ensureQueue.simps [simp del]
declare clearLoop.simps [simp del]

lemma canPlace_total: "wf_board b \<Longrightarrow> \<exists>ok. canPlace b m x y = Inr ok"
  by (simp add: canPlace_char)

lemma canPlace_bottom:
  "wf_board b \<Longrightarrow> filled m r c \<Longrightarrow> BOARD_HEIGHT \<le> y + int r \<Longrightarrow> canPlace b m x y = Inr False"
  by (auto simp: canPlace_char rejects_def)

section \<open>Locking keeps the grid\<close>

lemma wf_board_update:
  assumes "wf_board b" "i < 20" "j < 10"
  shows "wf_board (b[i := writeCell (b ! i) j k])"
proof -
  have "length (b ! i) = 10"
    using assms wf_board_row [of b "int i"] by simp
  then show ?thesis
    using assms by (auto simp: wf_board_def list_all_length writeCell_def nth_list_update)
qed

lemma lockCols_wf:
  "wf_board b \<Longrightarrow> \<exists>b1. lockCols b k vs x boardY col = Inr b1 \<and> wf_board b1"
proof (induction vs arbitrary: b col)
  case Nil
  then show ?case by simp
next
  case (Cons v vs)
  show ?case
  proof (cases "v \<noteq> 0 \<and> 0 \<le> boardY \<and> boardY < BOARD_HEIGHT \<and> 0 \<le> x + col \<and> x + col < BOARD_WIDTH")
    case True
    then have "wf_board (b[nat boardY := writeCell (b ! nat boardY) (nat (x + col)) k])"
      using Cons.prems by (intro wf_board_update) (auto simp: BOARD_HEIGHT_def BOARD_WIDTH_def)
    from Cons.IH [OF this, of "col + 1"] True Cons.prems show ?thesis
      by (auto simp: Let_def BOARD_HEIGHT_def BOARD_WIDTH_def wf_board_def)
  next
    case False
    with Cons.IH [OF Cons.prems, of "col + 1"] show ?thesis
      by (auto simp: Let_def)
  qed
qed

lemma lockRows_wf:
  "wf_board b \<Longrightarrow> \<exists>b1. lockRows b k m x y row = Inr b1 \<and> wf_board b1"
proof (induction m arbitrary: b row)
  case Nil
  then show ?case by simp
next
  case (Cons r m)
  from lockCols_wf [OF Cons.prems, of k r x "y + row" 0]
  obtain b1 where b1: "lockCols b k r x (y + row) 0 = Inr b1" "wf_board b1" by blast
  from Cons.IH [OF b1(2), of "row + 1"] b1(1) show ?case by simp
qed

lemma lockCurrentPiece_wf:
  assumes "wf_board (board s)"
  shows "\<exists>b1. lockCurrentPiece s = Inr (s\<lparr>board := b1, currentPiece := None\<rparr>) \<and> wf_board b1"
proof (cases "currentPiece s")
  case None
  then have "lockCurrentPiece s = Inr (s\<lparr>board := board s, currentPiece := None\<rparr>)"
    by (simp add: lockCurrentPiece_def)
  with assms show ?thesis by blast
next
  case (Some p)
  from lockRows_wf [OF assms, of "ptype p" "matrix p" "px p" "py p" 0]
  obtain b1 where "lockRows (board s) (ptype p) (matrix p) (px p) (py p) 0 = Inr b1" "wf_board b1"
    by blast
  with Some show ?thesis by (auto simp: lockCurrentPiece_def)
qed

section \<open>Line clearing counts the complete rows\<close>

lemma complete_empty_row: "\<not> complete (replicate (nat BOARD_WIDTH) None)"
  by (simp add: complete_def BOARD_WIDTH_def list_all_iff)

lemma filter_complete_remove:
  assumes "n < length b" "complete (b ! n)"
  shows "length (filter complete (replicate (nat BOARD_WIDTH) None # take n b @ drop (Suc n) b)) + 1
    = length (filter complete b)"
proof -
  let ?c = "take n b @ (b ! n) # drop (Suc n) b"
  have split: "b = ?c"
    using assms(1) by (simp add: id_take_nth_drop)
  have "length (filter complete ?c) =
      length (filter complete (take n b)) + 1 + length (filter complete (drop (Suc n) b))"
    using assms(2) by simp
  moreover have "length (filter complete b) = length (filter complete ?c)"
    using split by (rule arg_cong)
  ultimately show ?thesis using complete_empty_row by simp
qed

lemma wf_board_remove:
  assumes "wf_board b" "n < 20"
  shows "wf_board (replicate (nat BOARD_WIDTH) None # take n b @ drop (Suc n) b)"
proof -
  have "list_all (\<lambda>r. length r = 10) (take n b)" "list_all (\<lambda>r. length r = 10) (drop (Suc n) b)"
    using assms(1) by (auto simp: wf_board_def list_all_iff dest: in_set_takeD in_set_dropD)
  then show ?thesis
    using assms by (simp add: wf_board_def BOARD_WIDTH_def)
qed

lemma clearLoop_count:
  "wf_board b \<Longrightarrow> row < 20 \<Longrightarrow> (\<forall>i. nat (row + 1) \<le> i \<and> i < 20 \<longrightarrow> \<not> complete (b ! i)) \<Longrightarrow>
    \<exists>b1. clearLoop b row lines = Inr (b1, lines + int (length (filter complete b))) \<and> wf_board b1"
proof (induction b row lines rule: clearLoop.induct)
  case (1 b row lines)
  show ?case
  proof (cases "row < 0")
    case True
    then have "\<forall>i < length b. \<not> complete (b ! i)"
      using "1.prems" by (simp add: wf_board_def)
    then have "filter complete b = []"
      by (auto simp: filter_empty_conv in_set_conv_nth)
    with True "1.prems"(1) show ?thesis
      by (simp add: clearLoop.simps)
  next
    case False
    then have len: "nat row < length b" "nat row < 20"
      using "1.prems" by (auto simp: wf_board_def)
    show ?thesis
    proof (cases "complete (b ! nat row)")
      case True
      let ?b = "replicate (nat BOARD_WIDTH) None # take (nat row) b @ drop (Suc (nat row)) b"
      have wf: "wf_board ?b"
        using "1.prems"(1) len(2) by (rule wf_board_remove)
      have above: "\<forall>i. nat (row + 1) \<le> i \<and> i < 20 \<longrightarrow> \<not> complete (?b ! i)"
      proof (intro allI impI)
        fix i assume i: "nat (row + 1) \<le> i \<and> i < 20"
        then obtain j where j: "i = Suc j" using False by (cases i) auto
        have "(take (nat row) b @ drop (Suc (nat row)) b) ! j = b ! i"
          using i j len False "1.prems"(1)
          by (auto simp: nth_append wf_board_def min_def)
        then show "\<not> complete (?b ! i)"
          using j i "1.prems"(3) by simp
      qed
      from "1.IH"(1) [OF False _ True wf "1.prems"(2) above] len
      obtain b1 where "clearLoop ?b row (lines + 1) =
          Inr (b1, lines + 1 + int (length (filter complete ?b)))" "wf_board b1"
        by auto
      moreover have "length (filter complete ?b) + 1 = length (filter complete b)"
        using len(1) True by (rule filter_complete_remove)
      ultimately show ?thesis
        using False len True by (subst clearLoop.simps) (auto simp: algebra_simps)
    next
      case nc: False
      have above: "\<forall>i. nat (row - 1 + 1) \<le> i \<and> i < 20 \<longrightarrow> \<not> complete (b ! i)"
      proof (intro allI impI)
        fix i assume "nat (row - 1 + 1) \<le> i \<and> i < 20"
        then have "i = nat row \<or> (nat (row + 1) \<le> i \<and> i < 20)"
          using False by auto
        then show "\<not> complete (b ! i)" using nc "1.prems"(3) by auto
      qed
      from "1.IH"(2) [OF False _ nc "1.prems"(1) _ above] len "1.prems"(2)
      obtain b1 where "clearLoop b (row - 1) lines =
          Inr (b1, lines + int (length (filter complete b)))" "wf_board b1"
        by auto
      then show ?thesis
        using False len nc by (subst clearLoop.simps) auto
    qed
  qed
qed

section \<open>C2: line-clear accounting\<close>

lemma clearLines_result:
  assumes "wf_board (board s)"
  shows "\<exists>b1. wf_board b1 \<and> clearLines s =
    (let n = int (length (filter complete (board s))) in
     Inr (if n > 0
          then s\<lparr>board := b1, linesCleared := linesCleared s + n,
                 score := score s + scoreFor n * ((linesCleared s + n) div 10 + 1)\<rparr>
          else s\<lparr>board := b1\<rparr>))"
proof -
  have "\<exists>b1. clearLoop (board s) 19 0 =
      Inr (b1, 0 + int (length (filter complete (board s)))) \<and> wf_board b1"
    by (rule clearLoop_count) (use assms in auto)
  then obtain b1 where
    "clearLoop (board s) 19 0 = Inr (b1, int (length (filter complete (board s))))"
    "wf_board b1" by auto
  then show ?thesis
    by (auto simp: clearLines_def BOARD_HEIGHT_def Let_def getLevel_def)
qed



section \<open>Rotation\<close>

text \<open>The inner loop of \<open>rotateMatrix\<close> writes slot \<open>k\<close> of the first \<open>n\<close> result rows.\<close>

lemma rot_inner_length:
  "length (fold (\<lambda>col res1. res1[col := (res1 ! col)[k := e col]]) [0..<n] res) = length res"
  by (induction n) simp_all

lemma rot_inner_nth_length:
  "length (fold (\<lambda>col res1. res1[col := (res1 ! col)[k := e col]]) [0..<n] res ! c)
    = length (res ! c)"
proof (induction n arbitrary: c)
  case 0
  then show ?case by simp
next
  case (Suc n)
  define F where "F = fold (\<lambda>col res1. res1[col := (res1 ! col)[k := e col]]) [0..<n] res"
  have IH: "length (F ! i) = length (res ! i)" for i
    using Suc by (simp add: F_def)
  have "length (F[n := (F ! n)[k := e n]] ! c) = length (res ! c)"
  proof (cases "n < length F")
    case True
    then show ?thesis using IH by (cases "c = n") simp_all
  next
    case False
    then have "F[n := (F ! n)[k := e n]] = F"
      by (intro list_update_beyond) simp
    then show ?thesis using IH by simp
  qed
  then show ?case by (simp add: F_def)
qed

lemma rot_inner_nth:
  "n \<le> length res \<Longrightarrow> c < length res \<Longrightarrow> j < length (res ! c) \<Longrightarrow>
    fold (\<lambda>col res1. res1[col := (res1 ! col)[k := e col]]) [0..<n] res ! c ! j
      = (if c < n \<and> j = k then e c else res ! c ! j)"
proof (induction n)
  case 0
  then show ?case by simp
next
  case (Suc n)
  define F where "F = fold (\<lambda>col res1. res1[col := (res1 ! col)[k := e col]]) [0..<n] res"
  have IH: "F ! c ! j = (if c < n \<and> j = k then e c else res ! c ! j)"
    using Suc by (simp add: F_def)
  have lenF: "length F = length res"
    by (simp add: F_def rot_inner_length)
  have lenc: "length (F ! c) = length (res ! c)"
    by (simp add: F_def rot_inner_nth_length)
  have "F[n := (F ! n)[k := e n]] ! c ! j = (if c < Suc n \<and> j = k then e c else res ! c ! j)"
  proof (cases "c = n")
    case True
    then show ?thesis
      using IH lenF lenc Suc.prems by (cases "j = k") simp_all
  next
    case False
    then show ?thesis
      using IH lenF Suc.prems by auto
  qed
  then show ?case by (simp add: F_def)
qed

lemma rot_outer:
  assumes "length res = C" "list_all (\<lambda>row. length row = R) res"
  shows "n \<le> R \<Longrightarrow>
    (let out = fold (\<lambda>row res0.
           fold (\<lambda>col res1. res1[col := (res1 ! col)[R - row - 1 := entry m row col]])
             [0..<C] res0) [0..<n] res
     in length out = C \<and> list_all (\<lambda>row. length row = R) out \<and>
        (\<forall>c < C. \<forall>j < R. out ! c ! j =
           (if R - 1 - j < n then entry m (R - 1 - j) c else res ! c ! j)))"
proof (induction n)
  case 0
  then show ?case using assms by simp
next
  case (Suc n)
  let ?prev = "fold (\<lambda>row res0.
           fold (\<lambda>col res1. res1[col := (res1 ! col)[R - row - 1 := entry m row col]])
             [0..<C] res0) [0..<n] res"
  let ?out = "fold (\<lambda>col res1. res1[col := (res1 ! col)[R - n - 1 := entry m n col]])
             [0..<C] ?prev"
  from Suc have prev: "length ?prev = C" "list_all (\<lambda>row. length row = R) ?prev"
    "\<forall>c < C. \<forall>j < R. ?prev ! c ! j =
           (if R - 1 - j < n then entry m (R - 1 - j) c else res ! c ! j)"
    by (simp_all add: Let_def)
  have len: "length ?out = C"
    using prev(1) by (simp add: rot_inner_length)
  have rows: "list_all (\<lambda>row. length row = R) ?out"
    using prev(1,2) len by (simp add: list_all_length rot_inner_nth_length)
  have cells: "?out ! c ! j = (if R - 1 - j < Suc n then entry m (R - 1 - j) c else res ! c ! j)"
    if "c < C" "j < R" for c j
  proof -
    have "j < length (?prev ! c)"
      using prev(1,2) that by (simp add: list_all_length)
    then have "?out ! c ! j = (if c < C \<and> j = R - n - 1 then entry m n c else ?prev ! c ! j)"
      using prev(1) that by (intro rot_inner_nth) simp_all
    moreover have "(j = R - n - 1) = (R - 1 - j = n)"
      using that Suc.prems by auto
    ultimately show ?thesis
      using prev(3) that by auto
  qed
  show ?case
    using len rows cells by (simp add: Let_def)
qed

lemma rotateMatrix_rect:
  assumes "rect m R C" "0 < R"
  shows "\<exists>rot. rotateMatrix m = Inr rot \<and> rect rot C R \<and>
    (\<forall>r < R. \<forall>c < C. rot ! c ! (R - 1 - r) = m ! r ! c)"
proof -
  from assms obtain r0 rs where m: "m = r0 # rs"
    by (cases m) (auto simp: rect_def)
  have C: "length r0 = C" "length m = R"
    using assms m by (auto simp: rect_def)
  let ?res = "replicate C (replicate R (0::int))"
  let ?out = "fold (\<lambda>row res0.
           fold (\<lambda>col res1. res1[col := (res1 ! col)[R - row - 1 := entry m row col]])
             [0..<C] res0) [0..<R] ?res"
  have rm: "rotateMatrix m = Inr ?out"
    using C m by (simp add: rotateMatrix_def firstRowLength_def Let_def)
  have "length ?res = C" "list_all (\<lambda>row. length row = R) ?res"
    by (simp_all add: list_all_length)
  from rot_outer [OF this, of R m]
  have out: "length ?out = C" "list_all (\<lambda>row. length row = R) ?out"
    "\<forall>c < C. \<forall>j < R. ?out ! c ! j = entry m (R - 1 - j) c"
    using assms(2) by (simp_all add: Let_def)
  have "?out ! c ! (R - 1 - r) = m ! r ! c" if "r < R" "c < C" for r c
  proof -
    have "?out ! c ! (R - 1 - r) = entry m (R - 1 - (R - 1 - r)) c"
      using out(3) that by simp
    moreover have "R - 1 - (R - 1 - r) = r" using that by simp
    moreover have "length (m ! r) = C"
      using assms(1) that by (simp add: rect_def list_all_length)
    ultimately show ?thesis using that by (simp add: entry_def)
  qed
  then show ?thesis
    using rm out(1,2) by (simp add: rect_def)
qed

lemma tryKicks_find:
  assumes "wf_board (board s)"
  shows "tryKicks s p rot kicks =
    Inr (case find (\<lambda>offset. canPlace (board s) rot (px p + offset) (py p) = Inr True) kicks of
           None \<Rightarrow> s
         | Some offset \<Rightarrow> s\<lparr>currentPiece := Some (p\<lparr>matrix := rot, px := px p + offset\<rparr>)\<rparr>)"
proof (induction kicks)
  case Nil
  then show ?case by simp
next
  case (Cons offset kicks)
  from canPlace_total [OF assms, of rot "px p + offset" "py p"]
  obtain ok where "canPlace (board s) rot (px p + offset) (py p) = Inr ok" by blast
  then show ?case using Cons by (cases ok) (simp_all add: Let_def)
qed

section \<open>C3: rotation with wall kicks\<close>

text \<open>
  C3. In a running state on a grid of the data model whose active piece has an
  \<open>R\<close>-by-\<open>C\<close> shape matrix (\<open>R > 0\<close>), \<open>handleAction Rotate\<close> computes the
  rotated matrix \<open>rot\<close>, which is \<open>C\<close>-by-\<open>R\<close> with
  \<open>rot[c][R - 1 - r] = source[r][c]\<close>, and tries the x offsets
  \<open>0, -1, +1, -2, +2\<close> in this order at the unchanged \<open>y\<close>: the piece takes
  \<open>rot\<close> and the first offset whose placement is free of collision, and when no
  offset is free the state (matrix, x and y of the piece included) is returned
  as it was.
\<close>

theorem C3_rotate_wall_kick:
  assumes "isRunning s" "currentPiece s = Some p" "wf_board (board s)"
    and "rect (matrix p) R C" "0 < R"
  shows "\<exists>rot. rotateMatrix (matrix p) = Inr rot \<and> rect rot C R \<and>
    (\<forall>r < R. \<forall>c < C. rot ! c ! (R - 1 - r) = matrix p ! r ! c) \<and>
    handleAction Rotate s = Some (Inr
      (case find (\<lambda>offset. canPlace (board s) rot (px p + offset) (py p) = Inr True)
              [0, - 1, 1, - 2, 2] of
         None \<Rightarrow> s
       | Some offset \<Rightarrow> s\<lparr>currentPiece := Some (p\<lparr>matrix := rot, px := px p + offset\<rparr>)\<rparr>))"
proof -
  from rotateMatrix_rect [OF assms(4,5)] obtain rot where
    rot: "rotateMatrix (matrix p) = Inr rot" "rect rot C R"
      "\<forall>r < R. \<forall>c < C. rot ! c ! (R - 1 - r) = matrix p ! r ! c"
    by blast
  have hk: "handleAction Rotate s = Some (tryKicks s p rot [0, - 1, 1, - 2, 2])"
    using assms(1,2) rot(1) by (simp add: handleAction_def rotatePiece_def del: tryKicks.simps)
  show ?thesis
    unfolding hk tryKicks_find [OF assms(3)] using rot by blast
qed

theorem C3_rotate_wall_kick_witness:
  "isRunning c3_state \<and> currentPiece c3_state = Some c3_piece \<and> wf_board (board c3_state) \<and>
   rect (matrix c3_piece) 4 1 \<and>
   handleAction Rotate c3_state = Some (Inr (c3_state
     \<lparr>currentPiece := Some \<lparr>ptype = I_piece, matrix = [[1, 1, 1, 1]], px = 6, py = 0\<rparr>\<rparr>))"
proof -
  have h: "isRunning c3_state" "currentPiece c3_state = Some c3_piece"
    "wf_board (board c3_state)" "rect (matrix c3_piece) 4 1" "0 < (4::nat)"
    using wf_createEmptyBoard
    by (simp_all add: c3_state_def c3_piece_def newEngine_def isRunning_def rect_def)
  have rot: "rotateMatrix (matrix c3_piece) = Inr [[1, 1, 1, 1]]"
    by code_simp
  have k: "find (\<lambda>offset. canPlace (board c3_state) [[1, 1, 1, 1]] (px c3_piece + offset)
        (py c3_piece) = Inr True) [0, - 1, 1, - 2, 2] = Some (- 2)"
    by code_simp
  from C3_rotate_wall_kick [OF h] obtain r where
    r: "rotateMatrix (matrix c3_piece) = Inr r"
    "handleAction Rotate c3_state = Some (Inr
      (case find (\<lambda>offset. canPlace (board c3_state) r (px c3_piece + offset)
                (py c3_piece) = Inr True) [0, - 1, 1, - 2, 2] of
         None \<Rightarrow> c3_state
       | Some offset \<Rightarrow> c3_state\<lparr>currentPiece :=
           Some (c3_piece\<lparr>matrix := r, px := px c3_piece + offset\<rparr>)\<rparr>))"
    by blast
  from r(1) rot have "r = [[1, 1, 1, 1]]" by simp
  with r(2) k have "handleAction Rotate c3_state = Some (Inr (c3_state\<lparr>currentPiece :=
           Some (c3_piece\<lparr>matrix := [[1, 1, 1, 1]], px := px c3_piece + (- 2)\<rparr>)\<rparr>))"
    by simp
  then show ?thesis using h by (simp add: c3_piece_def)
qed

section \<open>The queue\<close>

lemma shuffleLoop_length: "length (fst (shuffleLoop r k items pos)) = length items"
  by (induction r k items pos rule: shuffleLoop.induct) (simp_all add: Let_def)

lemma pushBag_fields:
  "board (pushBag s) = board s" "currentPiece (pushBag s) = currentPiece s"
  "score (pushBag s) = score s" "linesCleared (pushBag s) = linesCleared s"
  "gameOver (pushBag s) = gameOver s" "running (pushBag s) = running s"
  "rnd (pushBag s) = rnd s"
  by (simp_all add: pushBag_def split_def Let_def)

lemma pushBag_queue:
  "\<exists>bag. queue (pushBag s) = queue s @ bag \<and> length bag = 7"
proof -
  have "length TETROMINO_ORDER = 7"
    by (simp add: TETROMINO_ORDER_def)
  then have "length (fst (shuffle (rnd s) TETROMINO_ORDER (rndPos s))) = 7"
    by (simp add: shuffle_def shuffleLoop_length)
  then show ?thesis
    by (simp add: pushBag_def split_def Let_def)
qed

lemma ensureQueue_fields:
  "board (ensureQueue s) = board s \<and> currentPiece (ensureQueue s) = currentPiece s \<and>
   score (ensureQueue s) = score s \<and> linesCleared (ensureQueue s) = linesCleared s \<and>
   gameOver (ensureQueue s) = gameOver s \<and> running (ensureQueue s) = running s \<and>
   rnd (ensureQueue s) = rnd s"
proof (induction s rule: ensureQueue.induct)
  case (1 s)
  show ?case
  proof (cases "length (queue s) < length TETROMINO_ORDER")
    case True
    with 1 show ?thesis
      by (subst (1 2 3 4 5 6 7) ensureQueue.simps) (simp add: pushBag_fields)
  next
    case False
    then show ?thesis by (simp add: ensureQueue.simps)
  qed
qed

lemma ensureQueue_queue:
  "\<exists>more. queue (ensureQueue s) = queue s @ more \<and> 7 \<le> length (queue s @ more)"
proof (induction s rule: ensureQueue.induct)
  case (1 s)
  show ?case
  proof (cases "length (queue s) < length TETROMINO_ORDER")
    case True
    from pushBag_queue [of s] obtain bag where bag: "queue (pushBag s) = queue s @ bag" by blast
    from 1 [OF True] obtain more where
      "queue (ensureQueue (pushBag s)) = queue (pushBag s) @ more"
      "7 \<le> length (queue (pushBag s) @ more)" by blast
    then have "queue (ensureQueue s) = queue s @ (bag @ more) \<and> 7 \<le> length (queue s @ (bag @ more))"
      using True bag by (subst ensureQueue.simps) simp
    then show ?thesis by blast
  next
    case False
    then have "queue (ensureQueue s) = queue s @ [] \<and> 7 \<le> length (queue s @ [])"
      by (simp add: ensureQueue.simps TETROMINO_ORDER_def)
    then show ?thesis by blast
  qed
qed

lemma ensureQueue_id: "7 \<le> length (queue s) \<Longrightarrow> ensureQueue s = s"
  by (simp add: ensureQueue.simps TETROMINO_ORDER_def)

section \<open>Shapes\<close>

lemma okMatrix_shapes: "okMatrix (TETROMINO_SHAPES k)"
proof -
  have "\<exists>R C. rect (TETROMINO_SHAPES k) R C \<and> 0 < R"
    by (cases k) (simp_all add: rect_def)
  moreover have "filled (TETROMINO_SHAPES k) 0 0 \<or> filled (TETROMINO_SHAPES k) 1 1"
    by (cases k) (simp_all add: filled_def)
  ultimately show ?thesis unfolding okMatrix_def by blast
qed

lemma okMatrix_rotate:
  assumes "okMatrix m"
  shows "\<exists>rot. rotateMatrix m = Inr rot \<and> okMatrix rot"
proof -
  from assms obtain R C r c where m: "rect m R C" "0 < R" "filled m r c"
    unfolding okMatrix_def by blast
  from rotateMatrix_rect [OF m(1,2)] obtain rot where
    rot: "rotateMatrix m = Inr rot" "rect rot C R"
      "\<forall>r < R. \<forall>c < C. rot ! c ! (R - 1 - r) = m ! r ! c"
    by blast
  have rc: "r < R" "c < C" "m ! r ! c \<noteq> 0"
    using m(1,3) by (auto simp: rect_def filled_def list_all_length)
  then have "filled rot c (R - 1 - r)"
    using rot(2,3) by (auto simp: rect_def filled_def list_all_length)
  moreover have "0 < C" using rc by simp
  ultimately show ?thesis
    using rot(1,2) unfolding okMatrix_def by blast
qed

section \<open>Spawning\<close>

lemma spawnNextPiece_cases:
  assumes "wf_board (board s)"
  shows "\<exists>k rest. queue (ensureQueue s) = k # rest \<and> 6 \<le> length rest \<and>
    (spawnNextPiece s = Inr ((ensureQueue s)\<lparr>queue := rest, currentPiece := Some (spawnPiece k)\<rparr>) \<and>
       canPlace (board s) (matrix (spawnPiece k)) (px (spawnPiece k)) (- 1) = Inr True
     \<or> spawnNextPiece s = Inr ((ensureQueue s)\<lparr>queue := rest, currentPiece := None,
          gameOver := True, running := False\<rparr>) \<and>
       canPlace (board s) (matrix (spawnPiece k)) (px (spawnPiece k)) (- 1) = Inr False)"
proof -
  from ensureQueue_queue [of s] have "7 \<le> length (queue (ensureQueue s))"
    by auto
  then obtain k rest where q: "queue (ensureQueue s) = k # rest" "6 \<le> length rest"
    by (cases "queue (ensureQueue s)") auto
  have fr: "firstRowLength (getMatrixForType k) = Inr (length (hd (TETROMINO_SHAPES k)))"
    by (cases k) (simp_all add: firstRowLength_def getMatrixForType_def)
  have b: "board (ensureQueue s) = board s"
    using ensureQueue_fields by blast
  from canPlace_total [OF assms, of "TETROMINO_SHAPES k" "px (spawnPiece k)" "- 1"]
  obtain ok where ok: "canPlace (board s) (TETROMINO_SHAPES k) (px (spawnPiece k)) (- 1) = Inr ok"
    by blast
  show ?thesis
    using q fr b ok
    by (cases ok) (simp_all add: spawnNextPiece_def Let_def getMatrixForType_def spawnPiece_def)
qed

section \<open>The descent loops\<close>

lemma landsAt_iff:
  "landsAt b m x y y' =
     (y \<le> y' \<and> (\<forall>k. y < k \<and> k \<le> y' \<longrightarrow> canPlace b m x k = Inr True) \<and>
      canPlace b m x (y' + 1) = Inr False)"
  unfolding landsAt_def list_all_iff by auto

lemma landsAt_stop: "canPlace b m x (y + 1) = Inr False \<Longrightarrow> landsAt b m x y y"
  unfolding landsAt_iff by auto

lemma landsAt_step:
  assumes "canPlace b m x (y + 1) = Inr True" "landsAt b m x (y + 1) y'"
  shows "landsAt b m x y y'"
proof -
  have "canPlace b m x k = Inr True" if "y < k" "k \<le> y'" for k
  proof (cases "k = y + 1")
    case True
    then show ?thesis using assms(1) by simp
  next
    case False
    then have "y + 1 < k" using that by simp
    then show ?thesis using assms(2) that unfolding landsAt_iff by blast
  qed
  then show ?thesis using assms(2) unfolding landsAt_iff by auto
qed

lemma landsAt_unique: "landsAt b m x y y1 \<Longrightarrow> landsAt b m x y y2 \<Longrightarrow> y1 = y2"
proof (rule ccontr)
  assume l: "landsAt b m x y y1" "landsAt b m x y y2" and ne: "y1 \<noteq> y2"
  have False if "landsAt b m x y u" "landsAt b m x y v" "u < v" for u v
  proof -
    have "y < u + 1 \<and> u + 1 \<le> v" using that unfolding landsAt_iff by simp
    then have "canPlace b m x (u + 1) = Inr True"
      using that(2) unfolding landsAt_iff by blast
    then show False using that(1) unfolding landsAt_iff by simp
  qed
  from this [of y1 y2] this [of y2 y1] l ne show False
    by (cases "y1 < y2") auto
qed

lemma ghostLoop_lands:
  assumes "wf_board b" "filled (matrix p) r c"
  shows "\<exists>y'. ghostLoop b p y = Some (Inr y') \<and> landsAt b (matrix p) (px p) y y'"
proof (induction "nat (BOARD_HEIGHT - int r - y)" arbitrary: y rule: less_induct)
  case less
  from canPlace_total [OF assms(1), of "matrix p" "px p" "y + 1"]
  obtain ok where ok: "canPlace b (matrix p) (px p) (y + 1) = Inr ok" by blast
  show ?case
  proof (cases ok)
    case False
    with ok have "ghostLoop b p y = Some (Inr y)"
      by (subst ghostLoop.simps) simp
    moreover have "landsAt b (matrix p) (px p) y y"
      using ok False by (intro landsAt_stop) simp
    ultimately show ?thesis by blast
  next
    case True
    have "y + 1 + int r < BOARD_HEIGHT"
      using canPlace_bottom [OF assms, of "y + 1" "px p"] ok True by (cases "BOARD_HEIGHT \<le> y + 1 + int r") auto
    then have "nat (BOARD_HEIGHT - int r - (y + 1)) < nat (BOARD_HEIGHT - int r - y)"
      by simp
    from less [OF this] obtain y' where
      y': "ghostLoop b p (y + 1) = Some (Inr y')" "landsAt b (matrix p) (px p) (y + 1) y'"
      by blast
    have "ghostLoop b p y = Some (Inr y')"
      using ok True y'(1) by (subst ghostLoop.simps) simp
    moreover have "canPlace b (matrix p) (px p) (y + 1) = Inr True"
      using ok True by simp
    then have "landsAt b (matrix p) (px p) y y'"
      using y'(2) by (rule landsAt_step)
    ultimately show ?thesis by blast
  qed
qed

lemma hardDropLoop_lands:
  assumes "wf_board b" "filled m r c"
  shows "matrix p = m \<Longrightarrow> \<exists>y'. hardDropLoop b p d = Some (Inr (p\<lparr>py := y'\<rparr>, d + (y' - py p))) \<and>
    landsAt b m (px p) (py p) y'"
proof (induction "nat (BOARD_HEIGHT - int r - py p)" arbitrary: p d rule: less_induct)
  case less
  from canPlace_total [OF assms(1), of m "px p" "py p + 1"]
  obtain ok where ok: "canPlace b m (px p) (py p + 1) = Inr ok" by blast
  show ?case
  proof (cases ok)
    case False
    with ok less.prems have "hardDropLoop b p d = Some (Inr (p\<lparr>py := py p\<rparr>, d + (py p - py p)))"
      by (subst hardDropLoop.simps) simp
    moreover have "landsAt b m (px p) (py p) (py p)"
      using ok False by (intro landsAt_stop) simp
    ultimately show ?thesis by blast
  next
    case True
    let ?p = "p\<lparr>py := py p + 1\<rparr>"
    have "py p + 1 + int r < BOARD_HEIGHT"
      using canPlace_bottom [OF assms, of "py p + 1" "px p"] ok True
      by (cases "BOARD_HEIGHT \<le> py p + 1 + int r") auto
    then have "nat (BOARD_HEIGHT - int r - py ?p) < nat (BOARD_HEIGHT - int r - py p)"
      by simp
    from less.hyps [OF this, of "d + 1"] less.prems obtain y' where
      y': "hardDropLoop b ?p (d + 1) = Some (Inr (?p\<lparr>py := y'\<rparr>, d + 1 + (y' - py ?p)))"
        "landsAt b m (px ?p) (py ?p) y'"
      by auto
    have hd: "hardDropLoop b p d = Some (Inr (p\<lparr>py := y'\<rparr>, d + (y' - py p)))"
      using ok True y'(1) less.prems by (subst hardDropLoop.simps) simp
    have c: "canPlace b m (px p) (py p + 1) = Inr True"
      using ok True by simp
    have l: "landsAt b m (px p) (py p + 1) y'"
      using y'(2) by simp
    have "landsAt b m (px p) (py p) y'"
      using c l by (rule landsAt_step)
    with hd show ?thesis by blast
  qed
qed

section \<open>Well-formed engine states\<close>

lemma advances_refl: "wf_engine s \<Longrightarrow> advances s s"
  by (simp add: advances_def)

lemma scoreFor_nonneg: "0 \<le> scoreFor n"
proof (cases "0 \<le> n \<and> nat n < length SCORE_TABLE")
  case True
  have "\<forall>v \<in> set SCORE_TABLE. 0 \<le> v"
    by (simp add: SCORE_TABLE_def)
  moreover have "SCORE_TABLE ! nat n \<in> set SCORE_TABLE"
    using True by (intro nth_mem) simp
  ultimately show ?thesis
    using True by (simp add: scoreFor_def)
next
  case False
  then show ?thesis by (auto simp: scoreFor_def)
qed

lemma settle_result:
  assumes "wf_engine s" "currentPiece s = Some p"
  shows "\<exists>s'. bindR (lockCurrentPiece s) (\<lambda>s1. bindR (clearLines s1) spawnNextPiece) = Inr s' \<and>
    wf_engine s' \<and> score s \<le> score s' \<and> linesCleared s \<le> linesCleared s' \<and>
    6 \<le> length (queue s') \<and>
    (case currentPiece s' of
       None \<Rightarrow> gameOver s' \<and> \<not> running s'
     | Some q \<Rightarrow> gameOver s' = gameOver s \<and> running s' = running s)"
proof -
  have wfb: "wf_board (board s)" and nn: "0 \<le> score s" "0 \<le> linesCleared s"
    using assms(1) by (simp_all add: wf_engine_def)
  from lockCurrentPiece_wf [OF wfb] obtain b1 where
    lock: "lockCurrentPiece s = Inr (s\<lparr>board := b1, currentPiece := None\<rparr>)" "wf_board b1"
    by blast
  let ?s1 = "s\<lparr>board := b1, currentPiece := None\<rparr>"
  let ?n = "int (length (filter complete (board ?s1)))"
  have "wf_board (board ?s1)" using lock(2) by simp
  from clearLines_result [OF this] obtain b2 where
    clear: "wf_board b2" "clearLines ?s1 =
      Inr (if ?n > 0
           then ?s1\<lparr>board := b2, linesCleared := linesCleared ?s1 + ?n,
                  score := score ?s1 + scoreFor ?n * ((linesCleared ?s1 + ?n) div 10 + 1)\<rparr>
           else ?s1\<lparr>board := b2\<rparr>)"
    by (auto simp: Let_def)
  define s2 where "s2 = (if ?n > 0
           then ?s1\<lparr>board := b2, linesCleared := linesCleared ?s1 + ?n,
                  score := score ?s1 + scoreFor ?n * ((linesCleared ?s1 + ?n) div 10 + 1)\<rparr>
           else ?s1\<lparr>board := b2\<rparr>)"
  have "0 \<le> (linesCleared s + ?n) div 10 + 1"
    using nn(2) by (simp add: pos_imp_zdiv_nonneg_iff)
  then have bonus: "0 \<le> scoreFor ?n * ((linesCleared s + ?n) div 10 + 1)"
    using scoreFor_nonneg by simp
  have s2: "board s2 = b2" "currentPiece s2 = None" "score s \<le> score s2"
    "linesCleared s \<le> linesCleared s2" "gameOver s2 = gameOver s" "running s2 = running s"
    using bonus by (simp_all add: s2_def)
  have "wf_board (board s2)" using clear(1) s2(1) by simp
  from spawnNextPiece_cases [OF this] obtain k rest where
    sp: "queue (ensureQueue s2) = k # rest" "6 \<le> length rest"
      "spawnNextPiece s2 = Inr ((ensureQueue s2)\<lparr>queue := rest, currentPiece := Some (spawnPiece k)\<rparr>)
       \<or> spawnNextPiece s2 = Inr ((ensureQueue s2)\<lparr>queue := rest, currentPiece := None,
            gameOver := True, running := False\<rparr>)"
    by blast
  have eq: "board (ensureQueue s2) = board s2" "score (ensureQueue s2) = score s2"
    "linesCleared (ensureQueue s2) = linesCleared s2" "gameOver (ensureQueue s2) = gameOver s2"
    "running (ensureQueue s2) = running s2"
    using ensureQueue_fields [of s2] by simp_all
  have chain: "bindR (lockCurrentPiece s) (\<lambda>s1. bindR (clearLines s1) spawnNextPiece)
      = spawnNextPiece s2"
    using lock(1) clear(2) by (simp add: s2_def)
  have ok: "okMatrix (matrix (spawnPiece k))"
    by (simp add: spawnPiece_def okMatrix_shapes)
  from sp(3) show ?thesis
  proof
    assume "spawnNextPiece s2 =
      Inr ((ensureQueue s2)\<lparr>queue := rest, currentPiece := Some (spawnPiece k)\<rparr>)"
    then show ?thesis
      unfolding chain using s2 eq sp(2) ok clear(1) nn
      by (simp add: wf_engine_def)
  next
    assume "spawnNextPiece s2 = Inr ((ensureQueue s2)\<lparr>queue := rest, currentPiece := None,
            gameOver := True, running := False\<rparr>)"
    then show ?thesis
      unfolding chain using s2 eq sp(2) clear(1) nn
      by (simp add: wf_engine_def)
  qed
qed

lemma settle_advances:
  assumes "wf_engine s" "currentPiece s = Some p"
  shows "\<exists>s'. bindR (lockCurrentPiece s) (\<lambda>s1. bindR (clearLines s1) spawnNextPiece) = Inr s' \<and>
    advances s s' \<and> 6 \<le> length (queue s')"
proof -
  from settle_result [OF assms] obtain s' where
    r: "bindR (lockCurrentPiece s) (\<lambda>s1. bindR (clearLines s1) spawnNextPiece) = Inr s'"
      "wf_engine s'" "score s \<le> score s'" "linesCleared s \<le> linesCleared s'"
      "6 \<le> length (queue s')"
      "case currentPiece s' of
         None \<Rightarrow> gameOver s' \<and> \<not> running s'
       | Some q \<Rightarrow> gameOver s' = gameOver s \<and> running s' = running s"
    by blast
  have "advances s s'"
    using r(2-6) assms(2) by (cases "currentPiece s'") (auto simp: advances_def)
  with r(1,5) show ?thesis by blast
qed

section \<open>Every operation on a well-formed state\<close>

lemma wf_engine_piece:
  "wf_engine s \<Longrightarrow> okMatrix (matrix q) \<Longrightarrow> 0 \<le> d \<Longrightarrow>
    wf_engine (s\<lparr>currentPiece := Some q, score := score s + d\<rparr>)"
  by (simp add: wf_engine_def)

lemma advances_piece:
  assumes "wf_engine s" "currentPiece s = Some p" "okMatrix (matrix q)" "0 \<le> d"
  shows "advances s (s\<lparr>currentPiece := Some q, score := score s + d\<rparr>)"
  using assms by (auto simp: advances_def wf_engine_def)

lemma advances_trans: "advances s t \<Longrightarrow> advances t u \<Longrightarrow> advances s u"
  by (auto simp: advances_def)

lemma shiftPiece_advances:
  assumes "wf_engine s"
  shows "\<exists>s'. shiftPiece deltaX s = Inr s' \<and> advances s s'"
proof (cases "currentPiece s")
  case None
  then show ?thesis using assms by (simp add: shiftPiece_def advances_refl)
next
  case (Some p)
  have wfb: "wf_board (board s)" and okp: "okMatrix (matrix p)"
    using assms Some by (simp_all add: wf_engine_def)
  from canPlace_total [OF wfb, of "matrix p" "px p + deltaX" "py p"]
  obtain ok where ok: "canPlace (board s) (matrix p) (px p + deltaX) (py p) = Inr ok" by blast
  show ?thesis
  proof (cases ok)
    case True
    have "advances s (s\<lparr>currentPiece := Some (p\<lparr>px := px p + deltaX\<rparr>), score := score s + 0\<rparr>)"
      using assms Some okp by (intro advances_piece) simp_all
    then show ?thesis using Some ok True by (simp add: shiftPiece_def Let_def)
  next
    case False
    then show ?thesis using Some ok assms by (simp add: shiftPiece_def Let_def advances_refl)
  qed
qed

lemma rotatePiece_advances:
  assumes "wf_engine s"
  shows "\<exists>s'. rotatePiece s = Inr s' \<and> advances s s'"
proof (cases "currentPiece s")
  case None
  then show ?thesis using assms by (simp add: rotatePiece_def advances_refl)
next
  case (Some p)
  have wfb: "wf_board (board s)" and okp: "okMatrix (matrix p)"
    using assms Some by (simp_all add: wf_engine_def)
  from okMatrix_rotate [OF okp] obtain rot where
    rot: "rotateMatrix (matrix p) = Inr rot" "okMatrix rot" by blast
  have r: "rotatePiece s = tryKicks s p rot [0, - 1, 1, - 2, 2]"
    using Some rot(1) by (simp add: rotatePiece_def del: tryKicks.simps)
  show ?thesis
  proof (cases "find (\<lambda>offset. canPlace (board s) rot (px p + offset) (py p) = Inr True)
      [0, - 1, 1, - 2, 2]")
    case None
    then show ?thesis
      unfolding r tryKicks_find [OF wfb] using assms by (simp add: advances_refl)
  next
    case (Some offset)
    have "advances s (s\<lparr>currentPiece := Some (p\<lparr>matrix := rot, px := px p + offset\<rparr>),
        score := score s + 0\<rparr>)"
      using assms \<open>currentPiece s = Some p\<close> rot(2) by (intro advances_piece) simp_all
    then show ?thesis
      unfolding r tryKicks_find [OF wfb] using Some by simp
  qed
qed

lemma stepDown_advances:
  assumes "wf_engine s"
  shows "\<exists>s'. stepDown manual s = Inr s' \<and> advances s s'"
proof (cases "currentPiece s")
  case None
  then show ?thesis using assms by (simp add: stepDown_def advances_refl)
next
  case (Some p)
  have wfb: "wf_board (board s)" and okp: "okMatrix (matrix p)"
    using assms Some by (simp_all add: wf_engine_def)
  from canPlace_total [OF wfb, of "matrix p" "px p" "py p + 1"]
  obtain ok where ok: "canPlace (board s) (matrix p) (px p) (py p + 1) = Inr ok" by blast
  show ?thesis
  proof (cases ok)
    case True
    have a: "advances s (s\<lparr>currentPiece := Some (p\<lparr>py := py p + 1\<rparr>), score := score s + d\<rparr>)"
      if "0 \<le> d" for d
      using assms Some okp that by (intro advances_piece) simp_all
    show ?thesis
    proof (cases manual)
      case True
      with a [of 1] Some ok \<open>ok\<close> show ?thesis by (simp add: stepDown_def Let_def)
    next
      case False
      with a [of 0] Some ok \<open>ok\<close> show ?thesis by (simp add: stepDown_def Let_def)
    qed
  next
    case False
    from settle_advances [OF assms Some] obtain s' where
      "bindR (lockCurrentPiece s) (\<lambda>s1. bindR (clearLines s1) spawnNextPiece) = Inr s'"
      "advances s s'" by blast
    then show ?thesis using Some ok False by (simp add: stepDown_def)
  qed
qed

lemma hardDrop_advances:
  assumes "wf_engine s"
  shows "\<exists>s'. hardDrop s = Some (Inr s') \<and> advances s s'"
proof (cases "currentPiece s")
  case None
  then show ?thesis using assms by (simp add: hardDrop_def advances_refl)
next
  case (Some p)
  have wfb: "wf_board (board s)" and okp: "okMatrix (matrix p)"
    using assms Some by (simp_all add: wf_engine_def)
  from okp obtain r c where "filled (matrix p) r c"
    unfolding okMatrix_def by blast
  from hardDropLoop_lands [OF wfb this refl, of 0] obtain y' where
    loop: "hardDropLoop (board s) p 0 = Some (Inr (p\<lparr>py := y'\<rparr>, y' - py p))"
      "landsAt (board s) (matrix p) (px p) (py p) y'"
    by auto
  have dist: "0 \<le> y' - py p"
    using loop(2) by (simp add: landsAt_def)
  define s2 where "s2 = s\<lparr>currentPiece := Some (p\<lparr>py := y'\<rparr>), score := score s + (y' - py p) * 2\<rparr>"
  have a1: "advances s s2"
    unfolding s2_def using assms Some okp dist by (intro advances_piece) simp_all
  then have wf2: "wf_engine s2" by (simp add: advances_def)
  have cp2: "currentPiece s2 = Some (p\<lparr>py := y'\<rparr>)" by (simp add: s2_def)
  from settle_advances [OF wf2 cp2] obtain s' where
    s': "bindR (lockCurrentPiece s2) (\<lambda>s1. bindR (clearLines s1) spawnNextPiece) = Inr s'"
      "advances s2 s'" by blast
  have "(let s1 = s\<lparr>currentPiece := Some (p\<lparr>py := y'\<rparr>)\<rparr>
         in if y' - py p > 0 then s1\<lparr>score := score s1 + (y' - py p) * 2\<rparr> else s1) = s2"
    using dist by (cases "y' - py p > 0") (simp_all add: s2_def Let_def)
  then have "hardDrop s = Some (Inr s')"
    using Some loop(1) s'(1) by (simp add: hardDrop_def Let_def)
  with advances_trans [OF a1 s'(2)] show ?thesis by blast
qed

lemma handleAction_advances:
  assumes "wf_engine s"
  shows "\<exists>s'. handleAction action s = Some (Inr s') \<and> advances s s'"
proof (cases "isRunning s")
  case False
  then show ?thesis using assms by (simp add: handleAction_def advances_refl)
next
  case True
  show ?thesis
  proof (cases action)
    case MoveLeft
    with True shiftPiece_advances [OF assms, of "- 1"] show ?thesis
      by (simp add: handleAction_def)
  next
    case MoveRight
    with True shiftPiece_advances [OF assms, of 1] show ?thesis
      by (simp add: handleAction_def)
  next
    case Rotate
    with True rotatePiece_advances [OF assms] show ?thesis
      by (simp add: handleAction_def)
  next
    case SoftDrop
    with True stepDown_advances [OF assms, of True] show ?thesis
      by (simp add: handleAction_def)
  next
    case HardDrop
    with True hardDrop_advances [OF assms] show ?thesis
      by (simp add: handleAction_def)
  qed
qed

section \<open>Sessions\<close>

lemma advances_inv: "engine_inv s \<Longrightarrow> advances s s' \<Longrightarrow> engine_inv s'"
  by (auto simp: engine_inv_def advances_def)

lemma getRenderState_result:
  assumes "wf_engine s"
  shows "\<exists>g. getRenderState s = Some (Inr
      (\<lparr>sBoard = board s, sCurrentPiece = currentPiece s, sQueue = queue (ensureQueue s),
        sScore = score s, sLinesCleared = linesCleared s, isGameOver = gameOver s,
        width = BOARD_WIDTH, height = BOARD_HEIGHT, level = getLevel s,
        nextPiece = (case queue (ensureQueue s) of [] \<Rightarrow> None | k # _ \<Rightarrow> Some k),
        ghostY = g, dropInterval = getDropInterval s\<rparr>, ensureQueue s)) \<and>
    (case currentPiece s of
       None \<Rightarrow> g = None
     | Some p \<Rightarrow> \<exists>y'. g = Some y' \<and> landsAt (board s) (matrix p) (px p) (py p) y' \<and>
         ghostLoop (board s) p (py p) = Some (Inr y'))"
proof -
  let ?s1 = "ensureQueue s"
  have f: "board ?s1 = board s" "currentPiece ?s1 = currentPiece s" "score ?s1 = score s"
    "linesCleared ?s1 = linesCleared s" "gameOver ?s1 = gameOver s"
    using ensureQueue_fields [of s] by simp_all
  have lv: "getLevel ?s1 = getLevel s" "getDropInterval ?s1 = getDropInterval s"
    using f by (simp_all add: getLevel_def getDropInterval_def)
  have cb: "cloneBoard ?s1 = board s"
    using f by (simp add: cloneBoard_def)
  show ?thesis
  proof (cases "currentPiece s")
    case None
    then show ?thesis
      using f lv cb by (simp add: getRenderState_def Let_def)
  next
    case (Some p)
    have wfb: "wf_board (board s)" and okp: "okMatrix (matrix p)"
      using assms Some by (simp_all add: wf_engine_def)
    from okp obtain r c where "filled (matrix p) r c"
      unfolding okMatrix_def by blast
    from ghostLoop_lands [OF wfb this, of "py p"] obtain y' where
      y': "ghostLoop (board s) p (py p) = Some (Inr y')"
        "landsAt (board s) (matrix p) (px p) (py p) y'"
      by blast
    have "computeGhostY ?s1 = Some (Inr (Some y'))"
      using f Some y'(1) by (simp add: computeGhostY_def)
    moreover have "clonePiece p = p"
      by (simp add: clonePiece_def)
    ultimately show ?thesis
      using f lv cb Some y' by (simp add: getRenderState_def Let_def)
  qed
qed

lemma ensureQueue_advances:
  assumes "wf_engine s"
  shows "advances s (ensureQueue s)"
proof -
  from ensureQueue_queue [of s] obtain more where "queue (ensureQueue s) = queue s @ more"
    by blast
  then show ?thesis
    using assms ensureQueue_fields [of s] by (simp add: advances_def wf_engine_def)
qed

lemma exec_advances:
  assumes "wf_engine s" "\<not> isStart op"
  shows "\<exists>s'. exec op s = Some (Inr s') \<and> advances s s'"
proof (cases op)
  case (OpStart snapshot)
  with assms(2) show ?thesis by simp
next
  case OpPause
  then show ?thesis using assms(1) by (simp add: pause_def advances_def wf_engine_def)
next
  case OpResume
  then show ?thesis using assms(1) by (simp add: resume_def advances_def wf_engine_def)
next
  case (OpHandleAction action)
  then show ?thesis using handleAction_advances [OF assms(1)] by simp
next
  case (OpStepDown manual)
  then show ?thesis using stepDown_advances [OF assms(1)] by simp
next
  case OpGetRenderState
  from getRenderState_result [OF assms(1)] obtain r where
    "getRenderState s = Some (Inr (r, ensureQueue s))" by blast
  then show ?thesis using OpGetRenderState ensureQueue_advances [OF assms(1)] by simp
next
  case OpGetSnapshot
  then show ?thesis using assms(1) by (simp add: advances_refl)
qed

lemma start_fresh_inv:
  "\<exists>s'. start None s = Inr s' \<and> engine_inv s' \<and> score s' = 0 \<and> linesCleared s' = 0"
proof -
  define s0 where "s0 = ensureQueue (s\<lparr>board := createEmptyBoard, queue := [], currentPiece := None,
      score := 0, linesCleared := 0, gameOver := False\<rparr>)"
  have f: "board s0 = createEmptyBoard" "score s0 = 0" "linesCleared s0 = 0" "\<not> gameOver s0"
    unfolding s0_def
    using ensureQueue_fields [of "s\<lparr>board := createEmptyBoard, queue := [], currentPiece := None,
      score := 0, linesCleared := 0, gameOver := False\<rparr>"] by simp_all
  have st: "start None s = bindR (spawnNextPiece s0) (\<lambda>s1. Inr (s1\<lparr>running := \<not> gameOver s1\<rparr>))"
    by (simp add: start_def s0_def)
  have "wf_board (board s0)" using f(1) wf_createEmptyBoard by simp
  from spawnNextPiece_cases [OF this] obtain k rest where
    sp: "6 \<le> length rest"
      "spawnNextPiece s0 = Inr ((ensureQueue s0)\<lparr>queue := rest, currentPiece := Some (spawnPiece k)\<rparr>)
       \<or> spawnNextPiece s0 = Inr ((ensureQueue s0)\<lparr>queue := rest, currentPiece := None,
            gameOver := True, running := False\<rparr>)"
    by blast
  have eq: "board (ensureQueue s0) = createEmptyBoard" "score (ensureQueue s0) = 0"
    "linesCleared (ensureQueue s0) = 0" "\<not> gameOver (ensureQueue s0)"
    using ensureQueue_fields [of s0] f by simp_all
  have ok: "okMatrix (matrix (spawnPiece k))"
    by (simp add: spawnPiece_def okMatrix_shapes)
  from sp(2) show ?thesis
  proof
    assume "spawnNextPiece s0 =
      Inr ((ensureQueue s0)\<lparr>queue := rest, currentPiece := Some (spawnPiece k)\<rparr>)"
    then show ?thesis
      unfolding st using eq sp(1) ok wf_createEmptyBoard
      by (simp add: engine_inv_def wf_engine_def)
  next
    assume "spawnNextPiece s0 = Inr ((ensureQueue s0)\<lparr>queue := rest, currentPiece := None,
            gameOver := True, running := False\<rparr>)"
    then show ?thesis
      unfolding st using eq sp(1) wf_createEmptyBoard
      by (simp add: engine_inv_def wf_engine_def)
  qed
qed

lemma reachable_inv: "reachable s \<Longrightarrow> engine_inv s"
proof (induction rule: reachable.induct)
  case (fresh r pos s)
  with start_fresh_inv [of "newEngine r pos"] show ?case by auto
next
  case (step s op s')
  from step.hyps(2) show ?case
  proof
    assume "op = OpStart None"
    with step.hyps(3) start_fresh_inv [of s] show ?thesis by auto
  next
    assume ns: "\<not> isStart op"
    have "wf_engine s" using step.IH by (simp add: engine_inv_def)
    from exec_advances [OF this ns] step.hyps(3) have "advances s s'" by auto
    with step.IH show ?thesis by (rule advances_inv)
  qed
qed

section \<open>Runs of operations and example sessions\<close>

lemma run_reachable:
  "reachable s \<Longrightarrow> list_all (\<lambda>op. op = OpStart None \<or> \<not> isStart op) ops \<Longrightarrow>
    run ops s = Some (Inr s') \<Longrightarrow> reachable s'"
proof (induction ops arbitrary: s)
  case Nil
  then show ?case by simp
next
  case (Cons op ops)
  from Cons.prems(3) obtain s1 where s1: "exec op s = Some (Inr s1)" "run ops s1 = Some (Inr s')"
    by (auto split: option.splits sum.splits)
  have "reachable s1"
    using Cons.prems(1,2) s1(1) by (intro reachable.step [of s op s1]) simp_all
  then show ?case using Cons.IH Cons.prems(2) s1(2) by simp
qed

lemma played_reachable: "reachable (played n)"
proof -
  let ?ops = "replicate n (OpHandleAction HardDrop)"
  obtain s0 where s0: "start None (newEngine zeroDraws 0) = Inr s0"
    using start_fresh_inv [of "newEngine zeroDraws 0"] by blast
  then have r0: "reachable s0" by (rule reachable.fresh)
  have "\<exists>s'. run ops s = Some (Inr s')" if "list_all (\<lambda>op. \<not> isStart op) ops" "wf_engine s"
    for ops s
    using that
  proof (induction ops arbitrary: s)
    case Nil
    then show ?case by simp
  next
    case (Cons op ops)
    from exec_advances [of s op] Cons.prems obtain s1 where
      "exec op s = Some (Inr s1)" "advances s s1" by auto
    moreover from this have "wf_engine s1" by (simp add: advances_def)
    ultimately show ?case using Cons.IH [of s1] Cons.prems(1) by simp
  qed
  from this [of ?ops s0] reachable_inv [OF r0]
  obtain s' where s': "run ?ops s0 = Some (Inr s')"
    by (auto simp: engine_inv_def list_all_iff)
  have "reachable s'"
    using r0 _ s' by (rule run_reachable) (simp add: list_all_iff)
  moreover have "played n = s'"
    using s0 s' by (simp add: played_def)
  ultimately show ?thesis by simp
qed

section \<open>C10: game over has no active piece\<close>

text \<open>
  C10. In every state reachable from \<open>start()\<close> with no snapshot by public
  operations, \<open>gameOver\<close> implies that the active piece is null; so \<open>stepDown\<close>,
  with either value of the manual flag, returns a game-over state as it is: board,
  queue, score, linesCleared, gameOver and running are all unchanged.
\<close>

theorem C10_gameOver_stepDown_noop:
  assumes "reachable s" "gameOver s"
  shows "currentPiece s = None \<and> stepDown manual s = Inr s"
proof -
  from reachable_inv [OF assms(1)] assms(2) have "currentPiece s = None"
    by (simp add: engine_inv_def)
  then show ?thesis by (simp add: stepDown_def)
qed

theorem C10_gameOver_stepDown_noop_witness:
  "reachable (played 11) \<and> gameOver (played 11) \<and> currentPiece (played 11) = None \<and>
   stepDown True (played 11) = Inr (played 11) \<and> stepDown False (played 11) = Inr (played 11)"
proof -
  have over: "gameOver (played 11)"
    by code_simp
  show ?thesis
    using C10_gameOver_stepDown_noop [OF played_reachable over] played_reachable over
    by simp
qed

section \<open>C5: the game-over transition\<close>

lemma gameOver_closed:
  assumes "gameOver s" "currentPiece s = None" "\<not> isStart op"
  shows "\<exists>t. exec op s = Some (Inr t) \<and> gameOver t \<and> currentPiece t = None"
proof (cases op)
  case (OpStart snapshot)
  with assms(3) show ?thesis by simp
next
  case OpPause
  then show ?thesis using assms by (simp add: pause_def)
next
  case OpResume
  then show ?thesis using assms by (simp add: resume_def)
next
  case (OpHandleAction action)
  then show ?thesis using assms by (simp add: handleAction_def isRunning_def)
next
  case (OpStepDown manual)
  then show ?thesis using assms by (simp add: stepDown_def)
next
  case OpGetRenderState
  have "currentPiece (ensureQueue s) = None" "gameOver (ensureQueue s)"
    using ensureQueue_fields [of s] assms by simp_all
  then show ?thesis using OpGetRenderState by (simp add: getRenderState_def Let_def)
next
  case OpGetSnapshot
  then show ?thesis using assms by simp
qed

lemma gameOver_run:
  "gameOver s \<Longrightarrow> currentPiece s = None \<Longrightarrow> list_all (\<lambda>op. \<not> isStart op) ops \<Longrightarrow>
    \<exists>t. run ops s = Some (Inr t) \<and> gameOver t \<and> currentPiece t = None"
proof (induction ops arbitrary: s)
  case Nil
  then show ?case by simp
next
  case (Cons op ops)
  from gameOver_closed [OF Cons.prems(1,2), of op] Cons.prems(3) obtain s1 where
    s1: "exec op s = Some (Inr s1)" "gameOver s1" "currentPiece s1 = None" by auto
  from Cons.IH [OF s1(2,3)] Cons.prems(3) s1(1) show ?case by simp
qed

text \<open>
  C5 as stated fails in its last part: \<open>start\<close> with a snapshot is not a fresh
  start, and with a snapshot that is not game over it leaves the game-over state,
  because \<open>hydrateFromSnapshot\<close> takes \<open>gameOver\<close> from the snapshot.
\<close>

theorem C5_gameOver_transition_counterexample:
  "spawnNextPiece c5_state = Inr c5_over \<and> gameOver c5_over \<and> \<not> isRunning c5_over \<and>
   start (Some c5_saved) c5_over = Inr c5_revived \<and>
   \<not> gameOver c5_revived \<and> isRunning c5_revived"
proof -
  have "spawnNextPiece c5_state = Inr c5_over"
    by (simp add: spawnNextPiece_def ensureQueue.simps TETROMINO_ORDER_def Let_def
        c5_over_def c5_state_def newEngine_def
        getMatrixForType_def firstRowLength_def canPlace_def createEmptyBoard_def
        BOARD_WIDTH_def BOARD_HEIGHT_def)
  moreover have "start (Some c5_saved) c5_over = Inr c5_revived"
    by (simp add: start_def hydrateFromSnapshot_def Let_def c5_saved_def c5_revived_def
        c5_over_def clonePiece_def createEmptyBoard_def)
  ultimately show ?thesis
    by (simp add: c5_over_def c5_revived_def isRunning_def)
qed

text \<open>
  C5, amended. Whenever \<open>spawnNextPiece\<close> finds the spawn position of the queue
  head already colliding, the candidate is discarded (the active piece is none),
  \<open>gameOver\<close> becomes true and \<open>running\<close> false. From then on \<open>isRunning\<close>
  is false, \<open>resume\<close> does not make it true, and every sequence of operations
  other than \<open>start\<close> (with or without a snapshot) returns and ends in a state
  that is still game over, not running and without an active piece.
\<close>

theorem C5_gameOver_transition:
  assumes "queue (ensureQueue s) = k # rest"
    and "canPlace (board s) (getMatrixForType k)
           ((BOARD_WIDTH - int (length (hd (getMatrixForType k)))) div 2) (- 1) = Inr False"
  shows "\<exists>s'. spawnNextPiece s = Inr s' \<and>
    currentPiece s' = None \<and> gameOver s' \<and> \<not> running s' \<and>
    \<not> isRunning s' \<and> \<not> isRunning (resume s') \<and>
    (\<forall>ops. list_all (\<lambda>op. \<not> isStart op) ops \<longrightarrow>
       (\<exists>t. run ops s' = Some (Inr t) \<and> gameOver t \<and> \<not> isRunning t \<and> currentPiece t = None))"
proof -
  let ?s' = "(ensureQueue s)\<lparr>queue := rest, currentPiece := None, gameOver := True,
    running := False\<rparr>"
  have fr: "firstRowLength (getMatrixForType k) = Inr (length (hd (getMatrixForType k)))"
    by (cases k) (simp_all add: firstRowLength_def getMatrixForType_def)
  have b: "board (ensureQueue s) = board s"
    using ensureQueue_fields by blast
  have sp: "spawnNextPiece s = Inr ?s'"
    using assms fr b by (simp add: spawnNextPiece_def Let_def)
  have "\<exists>t. run ops ?s' = Some (Inr t) \<and> gameOver t \<and> \<not> isRunning t \<and> currentPiece t = None"
    if "list_all (\<lambda>op. \<not> isStart op) ops" for ops
    using gameOver_run [of ?s' ops] that by (auto simp: isRunning_def)
  then show ?thesis
    using sp by (simp add: isRunning_def resume_def)
qed

theorem C5_gameOver_transition_witness:
  "queue (ensureQueue c5_state) = T_piece # [I_piece, J_piece, L_piece, O_piece, S_piece, Z_piece] \<and>
   (\<exists>s'. spawnNextPiece c5_state = Inr s' \<and> currentPiece s' = None \<and> gameOver s' \<and>
      \<not> isRunning (resume s') \<and>
      (\<exists>t. run [OpResume, OpHandleAction MoveLeft, OpStepDown False, OpGetRenderState] s'
           = Some (Inr t) \<and> gameOver t \<and> \<not> isRunning t))"
proof -
  have q: "queue (ensureQueue c5_state) =
      T_piece # [I_piece, J_piece, L_piece, O_piece, S_piece, Z_piece]"
    by (simp add: ensureQueue_id c5_state_def)
  have c: "canPlace (board c5_state) (getMatrixForType T_piece)
           ((BOARD_WIDTH - int (length (hd (getMatrixForType T_piece)))) div 2) (- 1) = Inr False"
    by code_simp
  have ops: "list_all (\<lambda>op. \<not> isStart op)
      [OpResume, OpHandleAction MoveLeft, OpStepDown False, OpGetRenderState]"
    by simp
  from C5_gameOver_transition [OF q c] ops q show ?thesis
    by blast
qed

section \<open>C6: the length of the queue\<close>

lemma hardDrop_queue:
  assumes "wf_engine s" "currentPiece s = Some p"
  shows "\<exists>s'. hardDrop s = Some (Inr s') \<and> 6 \<le> length (queue s')"
proof -
  have wfb: "wf_board (board s)" and okp: "okMatrix (matrix p)"
    using assms by (simp_all add: wf_engine_def)
  from okp obtain r c where "filled (matrix p) r c"
    unfolding okMatrix_def by blast
  from hardDropLoop_lands [OF wfb this refl, of 0] obtain y' where
    loop: "hardDropLoop (board s) p 0 = Some (Inr (p\<lparr>py := y'\<rparr>, y' - py p))"
      "landsAt (board s) (matrix p) (px p) (py p) y'"
    by auto
  have dist: "0 \<le> y' - py p"
    using loop(2) by (simp add: landsAt_def)
  define s2 where "s2 = s\<lparr>currentPiece := Some (p\<lparr>py := y'\<rparr>), score := score s + (y' - py p) * 2\<rparr>"
  have "advances s s2"
    unfolding s2_def using assms okp dist by (intro advances_piece) simp_all
  then have wf2: "wf_engine s2" by (simp add: advances_def)
  have cp2: "currentPiece s2 = Some (p\<lparr>py := y'\<rparr>)" by (simp add: s2_def)
  from settle_advances [OF wf2 cp2] obtain s' where
    s': "bindR (lockCurrentPiece s2) (\<lambda>s1. bindR (clearLines s1) spawnNextPiece) = Inr s'"
      "6 \<le> length (queue s')" by blast
  have "(let s1 = s\<lparr>currentPiece := Some (p\<lparr>py := y'\<rparr>)\<rparr>
         in if y' - py p > 0 then s1\<lparr>score := score s1 + (y' - py p) * 2\<rparr> else s1) = s2"
    using dist by (cases "y' - py p > 0") (simp_all add: s2_def Let_def)
  then have "hardDrop s = Some (Inr s')"
    using assms(2) loop(1) s'(1) by (simp add: hardDrop_def Let_def)
  with s'(2) show ?thesis by blast
qed

lemma start_snapshot_queue:
  assumes "wf_snapshot snap"
  shows "\<exists>s'. start (Some snap) s = Inr s' \<and> queue s' \<noteq> [] \<and>
    (if sCurrentPiece snap = None \<and> \<not> isGameOver snap then 6 \<le> length (queue s')
     else if sQueue snap = [] then 7 \<le> length (queue s')
     else queue s' = sQueue snap)"
proof -
  define s1 where "s1 = s\<lparr>board := map (\<lambda>row. row) (sBoard snap),
      currentPiece := (case sCurrentPiece snap of Some p \<Rightarrow> Some (clonePiece p) | None \<Rightarrow> None),
      queue := sQueue snap, score := sScore snap, linesCleared := sLinesCleared snap,
      gameOver := isGameOver snap\<rparr>"
  define s2 where "s2 = (if length (queue s1) = 0 then ensureQueue s1 else s1)"
  have f1: "queue s1 = sQueue snap" "gameOver s1 = isGameOver snap"
    "(currentPiece s1 = None) = (sCurrentPiece snap = None)" "board s1 = sBoard snap"
    by (simp_all add: s1_def split: option.splits)
  from ensureQueue_queue [of s1] obtain more where
    more: "queue (ensureQueue s1) = queue s1 @ more" "7 \<le> length (queue s1 @ more)" by blast
  have f2: "gameOver s2 = isGameOver snap" "(currentPiece s2 = None) = (sCurrentPiece snap = None)"
    "board s2 = sBoard snap"
    using f1 ensureQueue_fields [of s1] by (simp_all add: s2_def)
  have q2: "queue s2 \<noteq> []" "if sQueue snap = [] then 7 \<le> length (queue s2)
      else queue s2 = sQueue snap"
    using f1(1) more by (auto simp: s2_def)
  have h: "hydrateFromSnapshot snap s =
      (if currentPiece s2 = None \<and> \<not> gameOver s2 then spawnNextPiece s2 else Inr s2)"
    unfolding hydrateFromSnapshot_def s2_def s1_def Let_def by (rule refl)
  show ?thesis
  proof (cases "sCurrentPiece snap = None \<and> \<not> isGameOver snap")
    case False
    then have "hydrateFromSnapshot snap s = Inr s2"
      using h f2 by auto
    then have "start (Some snap) s = Inr (s2\<lparr>running := \<not> gameOver s2\<rparr>)"
      by (simp add: start_def)
    then show ?thesis using False q2 by auto
  next
    case True
    have "wf_board (board s2)" using assms f2(3) by (simp add: wf_snapshot_def)
    from spawnNextPiece_cases [OF this] obtain k rest where
      sp: "6 \<le> length rest"
        "spawnNextPiece s2 = Inr ((ensureQueue s2)\<lparr>queue := rest, currentPiece := Some (spawnPiece k)\<rparr>)
         \<or> spawnNextPiece s2 = Inr ((ensureQueue s2)\<lparr>queue := rest, currentPiece := None,
              gameOver := True, running := False\<rparr>)"
      by blast
    have hs: "hydrateFromSnapshot snap s = spawnNextPiece s2"
      using h f2 True by simp
    from sp(2) show ?thesis
    proof
      assume "spawnNextPiece s2 =
        Inr ((ensureQueue s2)\<lparr>queue := rest, currentPiece := Some (spawnPiece k)\<rparr>)"
      then show ?thesis using hs sp(1) True by (auto simp: start_def)
    next
      assume "spawnNextPiece s2 = Inr ((ensureQueue s2)\<lparr>queue := rest, currentPiece := None,
              gameOver := True, running := False\<rparr>)"
      then show ?thesis using hs sp(1) True by (auto simp: start_def)
    qed
  qed
qed

text \<open>
  C6 as stated fails: \<open>spawnNextPiece\<close> tops the queue up to 7 and then removes
  the head, so right after \<open>start()\<close> on a new engine the queue holds 6 kinds
  (here with a random source that always draws index 0). After \<open>start\<close> with a
  snapshot that has an active piece the queue is the snapshot's, which may be shorter.
\<close>

theorem C6_queue_length_counterexample:
  "start None (newEngine zeroDraws 0) = Inr freshlyStarted \<and>
   length (queue freshlyStarted) = 6 \<and> \<not> 7 \<le> length (queue freshlyStarted)"
proof -
  have bag: "shuffle zeroDraws TETROMINO_ORDER 0 =
      ([J_piece, L_piece, O_piece, S_piece, T_piece, Z_piece, I_piece], 6)"
    by (simp add: shuffle_def TETROMINO_ORDER_def zeroDraws_def Let_def eval_nat_numeral)
  have e: "createEmptyBoard ! 0 = replicate 10 None" "length createEmptyBoard = 20"
    "createEmptyBoard \<noteq> []"
    by (simp_all add: createEmptyBoard_def BOARD_HEIGHT_def BOARD_WIDTH_def)
  have "start None (newEngine zeroDraws 0) = Inr freshlyStarted"
    using bag e
    by (simp add: start_def newEngine_def ensureQueue.simps pushBag_def spawnNextPiece_def
        getMatrixForType_def firstRowLength_def canPlace_def Let_def TETROMINO_ORDER_def
        BOARD_WIDTH_def BOARD_HEIGHT_def freshlyStarted_def)
  then show ?thesis by (simp add: freshlyStarted_def)
qed

text \<open>
  C6, amended. On states and snapshots of the data model: \<open>start()\<close> with no
  snapshot, every \<open>stepDown\<close> or \<open>hardDrop\<close> that locks a piece and spawns the
  next one, and \<open>start(snapshot)\<close> when it spawns a piece, return with a queue of
  at least 6 kinds (\<open>spawnNextPiece\<close> tops the queue up to 7 and then removes the
  head), so the queue holds at least 6 kinds in every state reachable from
  \<open>start()\<close> with no snapshot. When \<open>start(snapshot)\<close> does not spawn, the queue
  is the snapshot's queue if that is not empty and is topped up to at least 7
  otherwise, so it is never empty. \<open>getRenderState\<close> returns, tops the queue up to
  at least 7 before it reads the head, and reports the head as \<open>nextPiece\<close>, so
  the next-piece lookup never fails.
\<close>

theorem C6_queue_length:
  assumes "wf_engine s"
  shows "(\<exists>s'. start None s = Inr s' \<and> 6 \<le> length (queue s')) \<and>
    (\<forall>manual p. currentPiece s = Some p \<and>
        canPlace (board s) (matrix p) (px p) (py p + 1) = Inr False \<longrightarrow>
        (\<exists>s'. stepDown manual s = Inr s' \<and> 6 \<le> length (queue s'))) \<and>
    (isRunning s \<and> currentPiece s \<noteq> None \<longrightarrow>
        (\<exists>s'. handleAction HardDrop s = Some (Inr s') \<and> 6 \<le> length (queue s'))) \<and>
    (\<forall>snap. wf_snapshot snap \<longrightarrow>
        (\<exists>s'. start (Some snap) s = Inr s' \<and> queue s' \<noteq> [] \<and>
           (if sCurrentPiece snap = None \<and> \<not> isGameOver snap then 6 \<le> length (queue s')
            else if sQueue snap = [] then 7 \<le> length (queue s')
            else queue s' = sQueue snap))) \<and>
    (reachable s \<longrightarrow> 6 \<le> length (queue s)) \<and>
    (\<exists>r s'. getRenderState s = Some (Inr (r, s')) \<and>
       7 \<le> length (sQueue r) \<and> 7 \<le> length (queue s') \<and>
       nextPiece r = Some (hd (sQueue r)) \<and>
       (queue s \<noteq> [] \<longrightarrow> nextPiece r = Some (hd (queue s))))"
proof -
  have p1: "\<exists>s'. start None s = Inr s' \<and> 6 \<le> length (queue s')"
    using start_fresh_inv [of s] by (auto simp: engine_inv_def)
  have p2: "\<exists>s'. stepDown manual s = Inr s' \<and> 6 \<le> length (queue s')"
    if "currentPiece s = Some p" "canPlace (board s) (matrix p) (px p) (py p + 1) = Inr False"
    for manual p
  proof -
    from settle_advances [OF assms that(1)] obtain s' where
      "bindR (lockCurrentPiece s) (\<lambda>s1. bindR (clearLines s1) spawnNextPiece) = Inr s'"
      "6 \<le> length (queue s')" by blast
    then show ?thesis using that by (simp add: stepDown_def)
  qed
  have p3: "\<exists>s'. handleAction HardDrop s = Some (Inr s') \<and> 6 \<le> length (queue s')"
    if "isRunning s" "currentPiece s \<noteq> None"
  proof -
    from that(2) obtain p where "currentPiece s = Some p" by auto
    from hardDrop_queue [OF assms this] that(1) show ?thesis
      by (simp add: handleAction_def)
  qed
  have p5: "6 \<le> length (queue s)" if "reachable s"
    using reachable_inv [OF that] by (simp add: engine_inv_def)
  from ensureQueue_queue [of s] obtain more where
    more: "queue (ensureQueue s) = queue s @ more" "7 \<le> length (queue s @ more)" by blast
  then have "7 \<le> length (queue (ensureQueue s))" by simp
  then obtain k rest where kr: "queue (ensureQueue s) = k # rest"
    by (cases "queue (ensureQueue s)") auto
  from getRenderState_result [OF assms] obtain g where
    "getRenderState s = Some (Inr
      (\<lparr>sBoard = board s, sCurrentPiece = currentPiece s, sQueue = queue (ensureQueue s),
        sScore = score s, sLinesCleared = linesCleared s, isGameOver = gameOver s,
        width = BOARD_WIDTH, height = BOARD_HEIGHT, level = getLevel s,
        nextPiece = (case queue (ensureQueue s) of [] \<Rightarrow> None | k # _ \<Rightarrow> Some k),
        ghostY = g, dropInterval = getDropInterval s\<rparr>, ensureQueue s))"
    by blast
  then have p6: "\<exists>r s'. getRenderState s = Some (Inr (r, s')) \<and>
       7 \<le> length (sQueue r) \<and> 7 \<le> length (queue s') \<and>
       nextPiece r = Some (hd (sQueue r)) \<and>
       (queue s \<noteq> [] \<longrightarrow> nextPiece r = Some (hd (queue s)))"
    using more kr by (cases "queue s") auto
  show ?thesis
    using p1 p2 p3 p5 p6 start_snapshot_queue by blast
qed

theorem C6_queue_length_witness:
  "wf_engine (played 1) \<and> reachable (played 1) \<and> 6 \<le> length (queue (played 1)) \<and>
   (\<exists>s'. start None (played 1) = Inr s' \<and> 6 \<le> length (queue s')) \<and>
   isRunning (played 1) \<and>
   (\<exists>s'. handleAction HardDrop (played 1) = Some (Inr s') \<and> 6 \<le> length (queue s')) \<and>
   wf_snapshot c5_saved \<and>
   (\<exists>s'. start (Some c5_saved) (played 1) = Inr s' \<and> queue s' = sQueue c5_saved) \<and>
   (\<exists>r s'. getRenderState (played 1) = Some (Inr (r, s')) \<and> 7 \<le> length (sQueue r) \<and>
      nextPiece r = Some (hd (queue (played 1)))) \<and>
   wf_engine c6_landed \<and>
   (\<exists>s'. stepDown False c6_landed = Inr s' \<and> 6 \<le> length (queue s'))"
proof -
  have wf1: "wf_engine (played 1)"
    using reachable_inv [OF played_reachable, of 1] by (simp add: engine_inv_def)
  have run1: "isRunning (played 1) \<and> currentPiece (played 1) \<noteq> None \<and> queue (played 1) \<noteq> []"
    by code_simp
  have "okMatrix [[1, 1], [1, 1]]"
    using okMatrix_shapes [of O_piece] by simp
  then have snap: "wf_snapshot c5_saved" "sCurrentPiece c5_saved \<noteq> None" "sQueue c5_saved \<noteq> []"
    using wf_createEmptyBoard by (simp_all add: wf_snapshot_def c5_saved_def)
  let ?p = "\<lparr>ptype = I_piece, matrix = [[1], [1], [1], [1]], px = 4, py = 16\<rparr>"
  have "rect [[1], [1], [1], [1]] 4 1 \<and> (0::nat) < 4" "filled [[1], [1], [1], [1]] 0 0"
    by (simp_all add: rect_def filled_def)
  then have "okMatrix [[1], [1], [1], [1]]"
    unfolding okMatrix_def by blast
  then have wfl: "wf_engine c6_landed"
    using wf_createEmptyBoard by (simp add: wf_engine_def c6_landed_def newEngine_def)
  have landed: "currentPiece c6_landed = Some ?p \<and>
      canPlace (board c6_landed) (matrix ?p) (px ?p) (py ?p + 1) = Inr False"
    by code_simp
  note t1 = C6_queue_length [OF wf1]
  note t2 = C6_queue_length [OF wfl]
  have a: "\<exists>s'. start None (played 1) = Inr s' \<and> 6 \<le> length (queue s')"
    using t1 by blast
  have b: "\<exists>s'. handleAction HardDrop (played 1) = Some (Inr s') \<and> 6 \<le> length (queue s')"
    using t1 run1 by blast
  have "\<exists>s'. start (Some c5_saved) (played 1) = Inr s' \<and> queue s' \<noteq> [] \<and>
           (if sCurrentPiece c5_saved = None \<and> \<not> isGameOver c5_saved then 6 \<le> length (queue s')
            else if sQueue c5_saved = [] then 7 \<le> length (queue s')
            else queue s' = sQueue c5_saved)"
    using t1 snap(1) by blast
  then have c: "\<exists>s'. start (Some c5_saved) (played 1) = Inr s' \<and> queue s' = sQueue c5_saved"
    using snap(2,3) by auto
  have d: "6 \<le> length (queue (played 1))"
    using t1 played_reachable [of 1] by blast
  have e: "\<exists>r s'. getRenderState (played 1) = Some (Inr (r, s')) \<and> 7 \<le> length (sQueue r) \<and>
      nextPiece r = Some (hd (queue (played 1)))"
    using t1 run1 by blast
  have f: "\<exists>s'. stepDown False c6_landed = Inr s' \<and> 6 \<le> length (queue s')"
    using t2 landed by blast
  show ?thesis
    using wf1 played_reachable [of 1] run1 snap(1) wfl a b c d e f by blast
qed

section \<open>C8: score and lines never decrease\<close>

lemma start_snapshot_wf:
  assumes "wf_snapshot snap"
  shows "\<exists>s'. start (Some snap) s = Inr s' \<and> wf_engine s'"
proof -
  define s1 where "s1 = s\<lparr>board := map (\<lambda>row. row) (sBoard snap),
      currentPiece := (case sCurrentPiece snap of Some p \<Rightarrow> Some (clonePiece p) | None \<Rightarrow> None),
      queue := sQueue snap, score := sScore snap, linesCleared := sLinesCleared snap,
      gameOver := isGameOver snap\<rparr>"
  define s2 where "s2 = (if length (queue s1) = 0 then ensureQueue s1 else s1)"
  have "clonePiece p = p" for p by (simp add: clonePiece_def)
  then have "wf_engine s1"
    using assms by (simp add: wf_snapshot_def wf_engine_def s1_def split: option.splits)
  then have wf2: "wf_engine s2"
    using ensureQueue_advances [of s1] by (simp add: s2_def advances_def)
  have h: "hydrateFromSnapshot snap s =
      (if currentPiece s2 = None \<and> \<not> gameOver s2 then spawnNextPiece s2 else Inr s2)"
    unfolding hydrateFromSnapshot_def s2_def s1_def Let_def by (rule refl)
  have "\<exists>s3. hydrateFromSnapshot snap s = Inr s3 \<and> wf_engine s3"
  proof (cases "currentPiece s2 = None \<and> \<not> gameOver s2")
    case False
    then show ?thesis using h wf2 by auto
  next
    case True
    have wfb: "wf_board (board s2)" and nn: "0 \<le> score s2" "0 \<le> linesCleared s2"
      using wf2 by (simp_all add: wf_engine_def)
    from spawnNextPiece_cases [OF wfb] obtain k rest where
      sp: "spawnNextPiece s2 = Inr ((ensureQueue s2)\<lparr>queue := rest, currentPiece := Some (spawnPiece k)\<rparr>)
       \<or> spawnNextPiece s2 = Inr ((ensureQueue s2)\<lparr>queue := rest, currentPiece := None,
            gameOver := True, running := False\<rparr>)"
      by blast
    have f: "board (ensureQueue s2) = board s2" "score (ensureQueue s2) = score s2"
      "linesCleared (ensureQueue s2) = linesCleared s2"
      using ensureQueue_fields [of s2] by simp_all
    have ok: "okMatrix (matrix (spawnPiece k))"
      by (simp add: spawnPiece_def okMatrix_shapes)
    from sp show ?thesis
    proof
      assume "spawnNextPiece s2 =
        Inr ((ensureQueue s2)\<lparr>queue := rest, currentPiece := Some (spawnPiece k)\<rparr>)"
      then show ?thesis using h True f wfb nn ok by (simp add: wf_engine_def)
    next
      assume "spawnNextPiece s2 = Inr ((ensureQueue s2)\<lparr>queue := rest, currentPiece := None,
            gameOver := True, running := False\<rparr>)"
      then show ?thesis using h True f wfb nn by (simp add: wf_engine_def)
    qed
  qed
  then obtain s3 where "hydrateFromSnapshot snap s = Inr s3" "wf_engine s3" by blast
  then show ?thesis
    by (simp add: start_def wf_engine_def)
qed


text \<open>
  C8. From every state of the data model (grid 20 by 10, score and linesCleared
  not negative, a rectangular shape with a filled cell), every operation other
  than \<open>start\<close> (\<open>handleAction\<close>, \<open>stepDown\<close>, \<open>pause\<close>, \<open>resume\<close>,
  \<open>getSnapshot\<close>, \<open>getRenderState\<close>) returns a state of the data model again, in
  which the score and linesCleared are not negative and not smaller than before.
  The states reachable from \<open>start()\<close> are such states, and so is the state
  after \<open>start\<close> with a snapshot of the data model (\<open>start_snapshot_wf\<close>).
\<close>

theorem C8_score_lines_monotone:
  assumes "wf_engine s \<or> reachable s" "\<not> isStart op"
  shows "\<exists>s'. exec op s = Some (Inr s') \<and> wf_engine s' \<and>
    0 \<le> score s \<and> score s \<le> score s' \<and>
    0 \<le> linesCleared s \<and> linesCleared s \<le> linesCleared s'"
proof -
  have wf: "wf_engine s"
    using assms(1) reachable_inv [of s] by (auto simp: engine_inv_def)
  from exec_advances [OF wf assms(2)] obtain s' where
    "exec op s = Some (Inr s')" "advances s s'" by blast
  then show ?thesis
    using wf by (auto simp: advances_def wf_engine_def)
qed

theorem C8_score_lines_monotone_witness:
  "reachable (played 3) \<and> \<not> isStart (OpHandleAction HardDrop) \<and>
   (\<exists>s'. exec (OpHandleAction HardDrop) (played 3) = Some (Inr s') \<and>
      score (played 3) = 102 \<and> score s' = 128 \<and>
      0 \<le> linesCleared (played 3) \<and> linesCleared (played 3) \<le> linesCleared s')"
proof -
  from C8_score_lines_monotone [of "played 3" "OpHandleAction HardDrop"] played_reachable [of 3]
  obtain s' where s': "exec (OpHandleAction HardDrop) (played 3) = Some (Inr s')"
    "0 \<le> linesCleared (played 3)" "linesCleared (played 3) \<le> linesCleared s'"
    by auto
  have "case exec (OpHandleAction HardDrop) (played 3) of
      Some (Inr t) \<Rightarrow> score (played 3) = 102 \<and> score t = 128 | _ \<Rightarrow> False"
    by code_simp
  with s'(1) have "score (played 3) = 102 \<and> score s' = 128" by simp
  with s' played_reachable [of 3] show ?thesis by auto
qed

section \<open>C9: the ghost row\<close>

text \<open>
  C9. In every state of the data model \<open>getRenderState\<close> returns, and its
  \<open>ghostY\<close> is null exactly when there is no active piece. With an active piece at
  row \<open>y\<close>, \<open>ghostY\<close> is the row \<open>y' \<ge> y\<close> such that every single-row descent
  from \<open>y\<close> down to \<open>y'\<close> is free of collision and the descent to \<open>y' + 1\<close> is
  not (the greatest row reachable by collision-free single-row descents), and it is
  the row at which the descent loop of \<open>hardDrop\<close> leaves the piece, after
  \<open>y' - y\<close> steps.
\<close>

theorem C9_ghostY_landing:
  assumes "wf_engine s"
  shows "\<exists>r s'. getRenderState s = Some (Inr (r, s')) \<and>
    (ghostY r = None) = (currentPiece s = None) \<and>
    (case currentPiece s of
       None \<Rightarrow> True
     | Some p \<Rightarrow>
         \<exists>y'. ghostY r = Some y' \<and> py p \<le> y' \<and>
           (\<forall>k. py p < k \<and> k \<le> y' \<longrightarrow> canPlace (board s) (matrix p) (px p) k = Inr True) \<and>
           canPlace (board s) (matrix p) (px p) (y' + 1) = Inr False \<and>
           hardDropLoop (board s) p 0 = Some (Inr (p\<lparr>py := y'\<rparr>, y' - py p)))"
proof -
  from getRenderState_result [OF assms] obtain g r where
    r: "getRenderState s = Some (Inr (r, ensureQueue s))" "ghostY r = g"
    and g: "case currentPiece s of
       None \<Rightarrow> g = None
     | Some p \<Rightarrow> \<exists>y'. g = Some y' \<and> landsAt (board s) (matrix p) (px p) (py p) y' \<and>
         ghostLoop (board s) p (py p) = Some (Inr y')"
    by force
  show ?thesis
  proof (cases "currentPiece s")
    case None
    with r g show ?thesis by simp
  next
    case (Some p)
    with g obtain y' where y': "g = Some y'" "landsAt (board s) (matrix p) (px p) (py p) y'"
      by auto
    have wfb: "wf_board (board s)" and okp: "okMatrix (matrix p)"
      using assms Some by (simp_all add: wf_engine_def)
    from okp obtain r0 c0 where "filled (matrix p) r0 c0"
      unfolding okMatrix_def by blast
    from hardDropLoop_lands [OF wfb this refl, of 0] obtain y2 where
      y2: "hardDropLoop (board s) p 0 = Some (Inr (p\<lparr>py := y2\<rparr>, y2 - py p))"
        "landsAt (board s) (matrix p) (px p) (py p) y2"
      by auto
    have "y2 = y'" using y2(2) y'(2) by (rule landsAt_unique)
    then show ?thesis
      using r y' y2(1) Some unfolding landsAt_iff by auto
  qed
qed

theorem C9_ghostY_landing_witness:
  "wf_engine (played 0) \<and>
   (\<exists>r s'. getRenderState (played 0) = Some (Inr (r, s')) \<and> ghostY r = Some 18 \<and>
      map_option py (currentPiece (played 0)) = Some (- 1))"
proof -
  have wf: "wf_engine (played 0)"
    using reachable_inv [OF played_reachable, of 0] by (simp add: engine_inv_def)
  from C9_ghostY_landing [OF wf] obtain r s' where
    r: "getRenderState (played 0) = Some (Inr (r, s'))" by blast
  have "case getRenderState (played 0) of
      Some (Inr (r, s')) \<Rightarrow> ghostY r = Some 18 \<and> map_option py (currentPiece (played 0)) = Some (- 1)
    | _ \<Rightarrow> False"
    by code_simp
  with r wf show ?thesis by auto
qed

section \<open>C7: hard drop of a vertical I on an empty board\<close>

lemma clearLoop_none:
  assumes "wf_board b" "filter complete b = []"
  shows "row < 20 \<Longrightarrow> clearLoop b row lines = Inr (b, lines)"
proof (induction "nat (row + 1)" arbitrary: row)
  case 0
  then show ?case by (simp add: clearLoop.simps)
next
  case (Suc n)
  then have r: "0 \<le> row" "nat row < length b"
    using assms(1) by (auto simp: wf_board_def)
  then have "b ! nat row \<in> set b" by simp
  then have nc: "\<not> complete (b ! nat row)"
    using assms(2) by (auto simp: filter_empty_conv)
  have "clearLoop b (row - 1) lines = Inr (b, lines)"
    using Suc by (intro Suc.hyps(1)) auto
  then show ?case
    using r nc by (subst clearLoop.simps) simp
qed

lemma clearLines_none:
  assumes "wf_board (board s)" "filter complete (board s) = []"
  shows "clearLines s = Inr s"
  using clearLoop_none [OF assms, of 19 0]
  by (simp add: clearLines_def BOARD_HEIGHT_def)

lemma spawn_free:
  assumes "wf_board b" "b ! 0 = replicate 10 None"
  shows "canPlace b (matrix (spawnPiece k)) (px (spawnPiece k)) (- 1) = Inr True"
proof -
  have "length b = 20" using assms(1) by (simp add: wf_board_def)
  then show ?thesis
    using assms(2)
    by (cases k) (simp_all add: canPlace_def spawnPiece_def Let_def BOARD_WIDTH_def BOARD_HEIGHT_def)
qed

lemma occupied_empty: "\<not> occupied createEmptyBoard row col"
  by (simp add: occupied_def createEmptyBoard_def BOARD_HEIGHT_def BOARD_WIDTH_def)

lemma filled_verticalI: "filled verticalI r c = (r < 4 \<and> c = 0)"
proof -
  have "r \<in> {0, 1, 2, 3}" if "r < 4" using that by auto
  then show ?thesis
    by (auto simp: filled_def verticalI_def nth_Cons')
qed

lemma canPlace_verticalI:
  assumes "0 \<le> x" "x < 10"
  shows "canPlace createEmptyBoard verticalI x y = Inr (y + 3 < 20)"
proof -
  have "(\<exists>r c. filled verticalI r c \<and> rejects createEmptyBoard (y + int r) (x + int c))
      = (\<not> y + 3 < 20)"
  proof
    assume "\<exists>r c. filled verticalI r c \<and> rejects createEmptyBoard (y + int r) (x + int c)"
    then obtain r where "r < 4" "BOARD_HEIGHT \<le> y + int r"
      using assms occupied_empty
      by (auto simp: filled_verticalI rejects_def BOARD_WIDTH_def)
    then show "\<not> y + 3 < 20" by (simp add: BOARD_HEIGHT_def)
  next
    assume "\<not> y + 3 < 20"
    then have "filled verticalI 3 0 \<and> rejects createEmptyBoard (y + int 3) (x + int 0)"
      by (simp add: filled_verticalI rejects_def BOARD_HEIGHT_def)
    then show "\<exists>r c. filled verticalI r c \<and> rejects createEmptyBoard (y + int r) (x + int c)"
      by blast
  qed
  then show ?thesis
    using canPlace_char [OF wf_createEmptyBoard, of verticalI x y] by simp
qed

lemma lock_verticalI:
  assumes "0 \<le> x" "x < 10"
  shows "lockRows createEmptyBoard I_piece verticalI x 16 0 =
    Inr (createEmptyBoard[16 := (replicate 10 None)[nat x := Some I_piece],
                          17 := (replicate 10 None)[nat x := Some I_piece],
                          18 := (replicate 10 None)[nat x := Some I_piece],
                          19 := (replicate 10 None)[nat x := Some I_piece]])"
proof -
  have "nat x < 10" using assms by simp
  then show ?thesis
    using assms
    by (simp add: verticalI_def createEmptyBoard_def BOARD_HEIGHT_def BOARD_WIDTH_def Let_def
        writeCell_def)
qed

text \<open>
  C7. In a running engine whose board is empty and whose active piece is a vertical,
  4-by-1 I piece in column \<open>x\<close> at the top row of the 20-row board, the descent
  loop of \<open>hardDrop\<close> moves the piece down exactly \<open>20 - 4 = 16\<close> rows, and
  \<open>handleAction HardDrop\<close> adds exactly \<open>16 * 2 = 32\<close> to the score, locks the
  piece into the bottom 4 rows of column \<open>x\<close> and nowhere else, clears no line, and
  makes the former head of the queue the new active piece, at its spawn position.
\<close>

theorem C7_hardDrop_verticalI:
  assumes "isRunning s" "board s = createEmptyBoard"
    and "currentPiece s = Some p" "ptype p = I_piece" "matrix p = verticalI"
    and "0 \<le> px p" "px p < BOARD_WIDTH" "py p = 0"
    and "queue s = k # rest"
  shows "hardDropLoop (board s) p 0 = Some (Inr (p\<lparr>py := 16\<rparr>, 16)) \<and>
    (\<exists>s'. handleAction HardDrop s = Some (Inr s') \<and>
       score s' = score s + 32 \<and>
       board s' = createEmptyBoard[16 := (replicate 10 None)[nat (px p) := Some I_piece],
                                   17 := (replicate 10 None)[nat (px p) := Some I_piece],
                                   18 := (replicate 10 None)[nat (px p) := Some I_piece],
                                   19 := (replicate 10 None)[nat (px p) := Some I_piece]] \<and>
       linesCleared s' = linesCleared s \<and>
       currentPiece s' = Some (spawnPiece k) \<and> ptype (spawnPiece k) = k \<and>
       \<not> gameOver s')"
proof -
  let ?row = "(replicate 10 None)[nat (px p) := Some I_piece]"
  let ?B = "createEmptyBoard[16 := ?row, 17 := ?row, 18 := ?row, 19 := ?row]"
  have x: "0 \<le> px p" "px p < 10"
    using assms(6,7) by (simp_all add: BOARD_WIDTH_def)
  have cp: "canPlace createEmptyBoard verticalI (px p) y = Inr (y + 3 < 20)" for y
    using x by (rule canPlace_verticalI)
  have "filled verticalI 0 0" by (simp add: filled_verticalI)
  from hardDropLoop_lands [OF wf_createEmptyBoard this assms(5), of 0] obtain y' where
    y': "hardDropLoop createEmptyBoard p 0 = Some (Inr (p\<lparr>py := y'\<rparr>, y' - py p))"
      "landsAt createEmptyBoard verticalI (px p) (py p) y'"
    by auto
  have "landsAt createEmptyBoard verticalI (px p) (py p) 16"
    unfolding landsAt_iff using cp assms(8) by simp
  with y'(2) have "y' = 16" by (rule landsAt_unique)
  with y'(1) assms(8) have loop: "hardDropLoop (board s) p 0 = Some (Inr (p\<lparr>py := 16\<rparr>, 16))"
    using assms(2) by simp
  define s2 where "s2 = s\<lparr>currentPiece := Some (p\<lparr>py := 16\<rparr>), score := score s + 32\<rparr>"
  have lock: "lockCurrentPiece s2 = Inr (s2\<lparr>board := ?B, currentPiece := None\<rparr>)"
    using lock_verticalI [OF x] assms(2,4,5) by (simp add: lockCurrentPiece_def s2_def)
  define s3 where "s3 = s2\<lparr>board := ?B, currentPiece := None\<rparr>"
  have wfrow: "length ?row = 10" by simp
  have wfB: "wf_board ?B"
    using wf_createEmptyBoard
    by (simp add: wf_board_def list_all_length nth_list_update)
  have open_cell: "\<exists>i < 10. r ! i = None" if "r = ?row \<or> r = replicate 10 None" for r
  proof (cases "nat (px p) = 0")
    case True
    then have "(1::nat) < 10 \<and> r ! 1 = None" using that by auto
    then show ?thesis by blast
  next
    case False
    then have "(0::nat) < 10 \<and> r ! 0 = None" using that by auto
    then show ?thesis by blast
  qed
  have rows: "r = ?row \<or> r = replicate 10 None" if "r \<in> set ?B" for r
  proof -
    from that obtain i where i: "i < 20" "r = ?B ! i"
      by (auto simp: in_set_conv_nth createEmptyBoard_def BOARD_HEIGHT_def)
    then show ?thesis
      by (auto simp: nth_list_update createEmptyBoard_def BOARD_HEIGHT_def BOARD_WIDTH_def)
  qed
  have "\<not> complete r" if "r \<in> set ?B" for r
  proof -
    from rows [OF that] have len: "length r = 10" by auto
    from open_cell [OF rows [OF that]] obtain i where "i < 10" "r ! i = None" by blast
    then show ?thesis using len by (auto simp: complete_def list_all_length)
  qed
  then have none: "filter complete (board s3) = []"
    by (auto simp: s3_def filter_empty_conv)
  have clear: "clearLines s3 = Inr s3"
    using wfB none by (intro clearLines_none) (simp_all add: s3_def)
  have top: "?B ! 0 = replicate 10 None"
    by (simp add: createEmptyBoard_def BOARD_HEIGHT_def BOARD_WIDTH_def)
  have free: "canPlace (board s3) (matrix (spawnPiece k)) (px (spawnPiece k)) (- 1) = Inr True"
    using spawn_free [OF wfB top] by (simp add: s3_def)
  have "wf_board (board s3)" using wfB by (simp add: s3_def)
  from spawnNextPiece_cases [OF this] obtain k' rest' where
    sp: "queue (ensureQueue s3) = k' # rest'"
      "spawnNextPiece s3 = Inr ((ensureQueue s3)\<lparr>queue := rest', currentPiece := Some (spawnPiece k')\<rparr>) \<and>
         canPlace (board s3) (matrix (spawnPiece k')) (px (spawnPiece k')) (- 1) = Inr True
       \<or> spawnNextPiece s3 = Inr ((ensureQueue s3)\<lparr>queue := rest', currentPiece := None,
            gameOver := True, running := False\<rparr>) \<and>
         canPlace (board s3) (matrix (spawnPiece k')) (px (spawnPiece k')) (- 1) = Inr False"
    by blast
  from ensureQueue_queue [of s3] obtain more where
    "queue (ensureQueue s3) = queue s3 @ more" by blast
  then have "k' = k" using sp(1) assms(9) by (simp add: s3_def s2_def)
  with sp(2) free have spawn:
    "spawnNextPiece s3 = Inr ((ensureQueue s3)\<lparr>queue := rest', currentPiece := Some (spawnPiece k)\<rparr>)"
    by auto
  have f: "board (ensureQueue s3) = board s3" "score (ensureQueue s3) = score s3"
    "linesCleared (ensureQueue s3) = linesCleared s3" "gameOver (ensureQueue s3) = gameOver s3"
    using ensureQueue_fields [of s3] by simp_all
  have "hardDrop s = Some (Inr ((ensureQueue s3)\<lparr>queue := rest', currentPiece := Some (spawnPiece k)\<rparr>))"
    using assms(3) loop lock clear spawn
    by (simp add: hardDrop_def Let_def s2_def [symmetric] s3_def [symmetric])
  then have "handleAction HardDrop s =
      Some (Inr ((ensureQueue s3)\<lparr>queue := rest', currentPiece := Some (spawnPiece k)\<rparr>))"
    using assms(1) by (simp add: handleAction_def)
  moreover have "\<not> gameOver s" using assms(1) by (simp add: isRunning_def)
  ultimately show ?thesis
    using loop f by (simp add: s3_def s2_def spawnPiece_def)
qed

theorem C7_hardDrop_verticalI_witness:
  "isRunning c7_state \<and> board c7_state = createEmptyBoard \<and>
   currentPiece c7_state = Some \<lparr>ptype = I_piece, matrix = verticalI, px = 4, py = 0\<rparr> \<and>
   queue c7_state = T_piece # [O_piece] \<and>
   (\<exists>s'. handleAction HardDrop c7_state = Some (Inr s') \<and> score s' = 39 \<and>
      board s' ! 15 ! 4 = None \<and> board s' ! 16 ! 4 = Some I_piece \<and>
      board s' ! 19 ! 4 = Some I_piece \<and> board s' ! 19 ! 5 = None \<and>
      currentPiece s' =
        Some \<lparr>ptype = T_piece, matrix = [[0, 1, 0], [1, 1, 1]], px = 3, py = - 1\<rparr>)"
proof -
  let ?p = "\<lparr>ptype = I_piece, matrix = verticalI, px = 4, py = 0\<rparr>"
  have h: "isRunning c7_state" "board c7_state = createEmptyBoard"
    "currentPiece c7_state = Some ?p" "ptype ?p = I_piece" "matrix ?p = verticalI"
    "0 \<le> px ?p" "px ?p < BOARD_WIDTH" "py ?p = 0" "queue c7_state = T_piece # [O_piece]"
    by (simp_all add: c7_state_def newEngine_def isRunning_def BOARD_WIDTH_def)
  from C7_hardDrop_verticalI [OF h] obtain s' where
    s': "handleAction HardDrop c7_state = Some (Inr s')" "score s' = score c7_state + 32"
      "board s' = createEmptyBoard[16 := (replicate 10 None)[nat (px ?p) := Some I_piece],
                                   17 := (replicate 10 None)[nat (px ?p) := Some I_piece],
                                   18 := (replicate 10 None)[nat (px ?p) := Some I_piece],
                                   19 := (replicate 10 None)[nat (px ?p) := Some I_piece]]"
      "currentPiece s' = Some (spawnPiece T_piece)"
    by blast
  have "score s' = 39"
    using s'(2) by (simp add: c7_state_def)
  moreover have "board s' ! 15 ! 4 = None \<and> board s' ! 16 ! 4 = Some I_piece \<and>
      board s' ! 19 ! 4 = Some I_piece \<and> board s' ! 19 ! 5 = None"
    unfolding s'(3) by (simp add: createEmptyBoard_def BOARD_HEIGHT_def BOARD_WIDTH_def)
  moreover have "spawnPiece T_piece =
      \<lparr>ptype = T_piece, matrix = [[0, 1, 0], [1, 1, 1]], px = 3, py = - 1\<rparr>"
    by (simp add: spawnPiece_def BOARD_WIDTH_def)
  ultimately show ?thesis
    using h(1,2,3,9) s'(1,4) by simp
qed

section \<open>C4: snapshot round trip\<close>

text \<open>
  C4 as stated fails in two kinds of states that public operations produce. An
  engine that was never started has no active piece and is not game over, and
  \<open>hydrateFromSnapshot\<close> then spawns a piece, so the new engine reports an active
  piece where the source engine reports none. An engine started from a snapshot with
  an active piece and fewer than 3 queued kinds keeps that short queue, and the
  source and the restored engine each append a bag of their own.
\<close>

theorem C4_snapshot_round_trip_counterexample:
  "start (Some (getSnapshot (newEngine zeroDraws 0))) (newEngine zeroDraws 0) = Inr freshlyStarted \<and>
   renderedPiece (newEngine zeroDraws 0) = Some (Inr None) \<and>
   renderedPiece freshlyStarted = Some (Inr (Some (J_piece, 3, - 1))) \<and>
   start (Some c4_short) (newEngine countingDraws 0) = Inr c4_source \<and>
   start (Some (getSnapshot c4_source)) (newEngine countingDraws 6) = Inr c4_restored \<and>
   renderedQueue c4_source = Some (Inr [S_piece, Z_piece, S_piece]) \<and>
   renderedQueue c4_restored = Some (Inr [S_piece, I_piece, L_piece])"
proof -
  have bag: "shuffle zeroDraws TETROMINO_ORDER 0 =
      ([J_piece, L_piece, O_piece, S_piece, T_piece, Z_piece, I_piece], 6)"
    by (simp add: shuffle_def TETROMINO_ORDER_def zeroDraws_def Let_def eval_nat_numeral)
  have e: "createEmptyBoard ! 0 = replicate 10 None" "length createEmptyBoard = 20"
    "createEmptyBoard \<noteq> []"
    by (simp_all add: createEmptyBoard_def BOARD_HEIGHT_def BOARD_WIDTH_def)
  have "start (Some (getSnapshot (newEngine zeroDraws 0))) (newEngine zeroDraws 0)
      = Inr freshlyStarted"
    using bag e
    by (simp add: start_def hydrateFromSnapshot_def getSnapshot_def cloneBoard_def newEngine_def
        ensureQueue.simps pushBag_def spawnNextPiece_def
        getMatrixForType_def firstRowLength_def canPlace_def Let_def TETROMINO_ORDER_def
        BOARD_WIDTH_def BOARD_HEIGHT_def freshlyStarted_def)
  moreover have "renderedPiece (newEngine zeroDraws 0) = Some (Inr None)"
    by code_simp
  moreover have "renderedPiece freshlyStarted = Some (Inr (Some (J_piece, 3, - 1)))"
    by code_simp
  moreover have "start (Some c4_short) (newEngine countingDraws 0) = Inr c4_source"
    by (simp add: start_def hydrateFromSnapshot_def Let_def c4_short_def c4_source_def
        newEngine_def clonePiece_def)
  moreover have "start (Some (getSnapshot c4_source)) (newEngine countingDraws 6) = Inr c4_restored"
    by (simp add: start_def hydrateFromSnapshot_def getSnapshot_def cloneBoard_def Let_def
        c4_restored_def c4_source_def newEngine_def clonePiece_def)
  moreover have "renderedQueue c4_source = Some (Inr [S_piece, Z_piece, S_piece])"
    by code_simp
  moreover have "renderedQueue c4_restored = Some (Inr [S_piece, I_piece, L_piece])"
    by code_simp
  ultimately show ?thesis by simp
qed

text \<open>
  C4, amended. Let \<open>E\<close> be a state of the data model that holds at least 3 queued
  kinds and has no active piece only when it is game over (every state reachable
  from \<open>start()\<close> with no snapshot by public operations is one), and \<open>snap\<close>
  its snapshot, taken before or after its render state is read. Then
  \<open>start(snap)\<close> on a new engine returns an engine \<open>F\<close> whose render state agrees
  with that of \<open>E\<close> on score, linesCleared, the first 3 queue entries, and the
  active piece (kind, x and y; none when \<open>E\<close> has none). \<open>F\<close> is such a state
  again.
\<close>

theorem C4_snapshot_round_trip:
  assumes "reachable E \<or> restorable E"
    and "snap = getSnapshot E \<or> snap = getSnapshot (ensureQueue E)"
  shows "\<exists>rE E1 F rF F1.
    getRenderState E = Some (Inr (rE, E1)) \<and>
    start (Some snap) (newEngine r pos) = Inr F \<and>
    getRenderState F = Some (Inr (rF, F1)) \<and>
    sScore rF = sScore rE \<and> sLinesCleared rF = sLinesCleared rE \<and>
    3 \<le> length (sQueue rE) \<and> take 3 (sQueue rF) = take 3 (sQueue rE) \<and>
    map_option (\<lambda>q. (ptype q, px q, py q)) (sCurrentPiece rF)
      = map_option (\<lambda>q. (ptype q, px q, py q)) (sCurrentPiece rE) \<and>
    (sCurrentPiece rF = None) = (currentPiece E = None) \<and>
    restorable F"
proof -
  have inv: "restorable E"
    using assms(1) reachable_inv [of E] by (auto simp: engine_inv_def restorable_def)
  then have wfE: "wf_engine E" and len: "3 \<le> length (queue E)"
    and pg: "currentPiece E = None \<longrightarrow> gameOver E"
    by (simp_all add: restorable_def)
  from ensureQueue_queue [of E] obtain more1 where
    more1: "queue (ensureQueue E) = queue E @ more1" by blast
  have fE: "board (ensureQueue E) = board E" "currentPiece (ensureQueue E) = currentPiece E"
    "score (ensureQueue E) = score E" "linesCleared (ensureQueue E) = linesCleared E"
    "gameOver (ensureQueue E) = gameOver E"
    using ensureQueue_fields [of E] by simp_all
  have cl: "(case currentPiece E of Some p \<Rightarrow> Some (clonePiece p) | None \<Rightarrow> None) = currentPiece E"
    by (cases "currentPiece E") (simp_all add: clonePiece_def)
  obtain more0 where snap: "sBoard snap = board E" "sCurrentPiece snap = currentPiece E"
    "sQueue snap = queue E @ more0" "sScore snap = score E"
    "sLinesCleared snap = linesCleared E" "isGameOver snap = gameOver E"
  proof -
    from assms(2) show ?thesis
    proof
      assume "snap = getSnapshot E"
      then show ?thesis
        using cl that [of "[]"] by (simp add: getSnapshot_def cloneBoard_def)
    next
      assume "snap = getSnapshot (ensureQueue E)"
      then show ?thesis
        using cl fE more1 that [of more1] by (simp add: getSnapshot_def cloneBoard_def)
    qed
  qed
  define F where "F = (newEngine r pos)\<lparr>board := board E, currentPiece := currentPiece E,
      queue := queue E @ more0, score := score E, linesCleared := linesCleared E,
      gameOver := gameOver E, running := \<not> gameOver E\<rparr>"
  have qne: "queue E \<noteq> []" using len by auto
  have nospawn: "\<not> (currentPiece E = None \<and> \<not> gameOver E)"
    using pg by blast
  have "hydrateFromSnapshot snap (newEngine r pos) =
      Inr ((newEngine r pos)\<lparr>board := board E, currentPiece := currentPiece E,
        queue := queue E @ more0, score := score E, linesCleared := linesCleared E,
        gameOver := gameOver E\<rparr>)"
    unfolding hydrateFromSnapshot_def Let_def snap cl
    using qne nospawn by auto
  then have st: "start (Some snap) (newEngine r pos) = Inr F"
    by (simp add: start_def F_def)
  have fF: "board F = board E" "currentPiece F = currentPiece E" "queue F = queue E @ more0"
    "score F = score E" "linesCleared F = linesCleared E" "gameOver F = gameOver E"
    "running F = (\<not> gameOver E)"
    by (simp_all add: F_def)
  have invF: "restorable F"
    using inv fF by (simp add: restorable_def wf_engine_def)
  then have wfF: "wf_engine F" by (simp add: restorable_def)
  from ensureQueue_queue [of F] obtain more2 where
    more2: "queue (ensureQueue F) = queue F @ more2" by blast
  from getRenderState_result [OF wfE] obtain gE where
    rE: "getRenderState E = Some (Inr
      (\<lparr>sBoard = board E, sCurrentPiece = currentPiece E, sQueue = queue (ensureQueue E),
        sScore = score E, sLinesCleared = linesCleared E, isGameOver = gameOver E,
        width = BOARD_WIDTH, height = BOARD_HEIGHT, level = getLevel E,
        nextPiece = (case queue (ensureQueue E) of [] \<Rightarrow> None | k # _ \<Rightarrow> Some k),
        ghostY = gE, dropInterval = getDropInterval E\<rparr>, ensureQueue E))"
    by blast
  from getRenderState_result [OF wfF] obtain gF where
    rF: "getRenderState F = Some (Inr
      (\<lparr>sBoard = board F, sCurrentPiece = currentPiece F, sQueue = queue (ensureQueue F),
        sScore = score F, sLinesCleared = linesCleared F, isGameOver = gameOver F,
        width = BOARD_WIDTH, height = BOARD_HEIGHT, level = getLevel F,
        nextPiece = (case queue (ensureQueue F) of [] \<Rightarrow> None | k # _ \<Rightarrow> Some k),
        ghostY = gF, dropInterval = getDropInterval F\<rparr>, ensureQueue F))"
    by blast
  have "take 3 (queue (ensureQueue F)) = take 3 (queue (ensureQueue E))"
    using more1 more2 fF(3) len by simp
  moreover have "3 \<le> length (queue (ensureQueue E))"
    using more1 len by simp
  ultimately show ?thesis
    using rE rF st fF invF by simp
qed

theorem C4_snapshot_round_trip_witness:
  "reachable (played 2) \<and>
   (\<exists>rE E1 F rF F1.
      getRenderState (played 2) = Some (Inr (rE, E1)) \<and>
      start (Some (getSnapshot (played 2))) (newEngine zeroDraws 5) = Inr F \<and>
      getRenderState F = Some (Inr (rF, F1)) \<and>
      sScore rF = sScore rE \<and> sLinesCleared rF = sLinesCleared rE \<and>
      take 3 (sQueue rF) = take 3 (sQueue rE) \<and>
      map_option (\<lambda>q. (ptype q, px q, py q)) (sCurrentPiece rF)
        = map_option (\<lambda>q. (ptype q, px q, py q)) (sCurrentPiece rE)) \<and>
   restorable c4_three \<and>
   (\<exists>rE E1 F rF F1.
      getRenderState c4_three = Some (Inr (rE, E1)) \<and>
      start (Some (getSnapshot c4_three)) (newEngine countingDraws 6) = Inr F \<and>
      getRenderState F = Some (Inr (rF, F1)) \<and>
      take 3 (sQueue rF) = take 3 (sQueue rE) \<and>
      map_option (\<lambda>q. (ptype q, px q, py q)) (sCurrentPiece rF)
        = map_option (\<lambda>q. (ptype q, px q, py q)) (sCurrentPiece rE))"
proof -
  have h1: "reachable (played 2) \<or> restorable (played 2)"
    using played_reachable by blast
  have s1: "getSnapshot (played 2) = getSnapshot (played 2) \<or>
      getSnapshot (played 2) = getSnapshot (ensureQueue (played 2))"
    by simp
  have "okMatrix [[1, 1], [1, 1]]"
    using okMatrix_shapes [of O_piece] by simp
  then have r3: "restorable c4_three"
    using wf_createEmptyBoard
    by (simp add: restorable_def wf_engine_def c4_three_def c4_source_def)
  then have h2: "reachable c4_three \<or> restorable c4_three"
    by blast
  have s2: "getSnapshot c4_three = getSnapshot c4_three \<or>
      getSnapshot c4_three = getSnapshot (ensureQueue c4_three)"
    by simp
  show ?thesis
    using C4_snapshot_round_trip [OF h1 s1, of zeroDraws 5]
      C4_snapshot_round_trip [OF h2 s2, of countingDraws 6]
      played_reachable [of 2] r3
    by blast
qed

end
